theory Spec2Isabelle
  imports Main "HOL-Library.Word"
begin

unbundle bit_operations_syntax

section \<open>Reliable file transfer over UDP: the model of application.py\<close>

text \<open>
  The development follows \<^verbatim>\<open>src/application.py\<close>. A byte string is a list of
  8-bit words, a Python integer is an \<open>int\<close>, an exception that leaves a
  function is the left summand of its result.
\<close>

type_synonym byte = "8 word"
type_synonym bytes = "byte list"

text \<open>
  The exceptions the program can meet: \<open>StructError\<close> is \<^verbatim>\<open>struct.error\<close>
  (raised by \<^verbatim>\<open>struct.pack\<close> on a value out of range and by
  \<^verbatim>\<open>struct.unpack\<close> on a buffer of the wrong length), \<open>ValueError\<close> is the
  exception \<^verbatim>\<open>parseSynPacket\<close> raises itself, \<open>OSError\<close> is what a seek to a
  negative offset raises, and the last three are what \<^verbatim>\<open>recvfrom\<close> raises.
\<close>

datatype error =
    StructError
  | ValueError
  | OSError
  | SocketTimeout
  | ConnectionResetError
  | SocketError

subsection \<open>Global constants (lines 11-17)\<close>

definition HEADER_SIZE :: nat where "HEADER_SIZE = 6"
definition FLAGS_SYN :: int where "FLAGS_SYN = 1"
definition FLAGS_ACK :: int where "FLAGS_ACK = 2"
definition FLAGS_FIN :: int where "FLAGS_FIN = 4"
definition DATA_SIZE :: nat where "DATA_SIZE = 994"
definition MAX_PACKET_SIZE :: nat where "MAX_PACKET_SIZE = 1000"

subsection \<open>The struct module, formats "H", "HHH" and "I"\<close>

text \<open>
  \<^verbatim>\<open>struct.pack\<close> with a format that has no byte-order prefix uses the
  machine's byte order; the model fixes little-endian (x86-64, AArch64).
  Three \<^verbatim>\<open>H\<close> fields need no padding, so \<^verbatim>\<open>"HHH"\<close> is 6 bytes, and
  \<^verbatim>\<open>"I"\<close> is 4 bytes. A value outside the field's range raises
  \<^verbatim>\<open>struct.error\<close>; so does a buffer whose length is not the format's size.
\<close>

definition pack_H :: "int \<Rightarrow> error + bytes" where
  "pack_H v =
     (if 0 \<le> v \<and> v \<le> 65535
      then Inr [word_of_int v, word_of_int (v div 256)]
      else Inl StructError)"

definition unpack_H :: "byte \<Rightarrow> byte \<Rightarrow> int" where
  "unpack_H lo hi = uint lo + 256 * uint hi"

definition pack_HHH :: "int \<Rightarrow> int \<Rightarrow> int \<Rightarrow> error + bytes" where
  "pack_HHH a b c =
     (case pack_H a of
        Inl e \<Rightarrow> Inl e
      | Inr x \<Rightarrow>
          (case pack_H b of
             Inl e \<Rightarrow> Inl e
           | Inr y \<Rightarrow>
               (case pack_H c of
                  Inl e \<Rightarrow> Inl e
                | Inr z \<Rightarrow> Inr (x @ y @ z))))"

definition unpack_HHH :: "bytes \<Rightarrow> error + (int \<times> int \<times> int)" where
  "unpack_HHH b =
     (if length b \<noteq> 6 then Inl StructError
      else Inr (unpack_H (b ! 0) (b ! 1), unpack_H (b ! 2) (b ! 3), unpack_H (b ! 4) (b ! 5)))"

definition pack_I :: "int \<Rightarrow> error + bytes" where
  "pack_I v =
     (if 0 \<le> v \<and> v \<le> 4294967295
      then Inr [word_of_int v, word_of_int (v div 256),
                word_of_int (v div 65536), word_of_int (v div 16777216)]
      else Inl StructError)"

definition unpack_I :: "bytes \<Rightarrow> error + int" where
  "unpack_I b =
     (if length b \<noteq> 4 then Inl StructError
      else Inr (uint (b ! 0) + 256 * uint (b ! 1) + 65536 * uint (b ! 2)
                + 16777216 * uint (b ! 3)))"

subsection \<open>Packet codec (lines 65-155)\<close>

definition createPacket :: "int \<Rightarrow> int \<Rightarrow> int \<Rightarrow> bytes \<Rightarrow> error + bytes" where
  "createPacket seq_no ack_no flags data =
     (case pack_HHH seq_no ack_no flags of
        Inl e \<Rightarrow> Inl e
      | Inr header \<Rightarrow> Inr (header @ data))"

definition parsePacket :: "bytes \<Rightarrow> error + (int \<times> int \<times> int \<times> bytes)" where
  "parsePacket packet =
     (let header = take HEADER_SIZE packet;
          data = drop HEADER_SIZE packet
      in case unpack_HHH header of
           Inl e \<Rightarrow> Inl e
         | Inr (seq_no, ack_no, flags) \<Rightarrow> Inr (seq_no, ack_no, flags, data))"

definition createSynPacket :: "int \<Rightarrow> int \<Rightarrow> int \<Rightarrow> int \<Rightarrow> error + bytes" where
  "createSynPacket seq_no ack_no flags file_size =
     (case pack_HHH seq_no ack_no flags of
        Inl e \<Rightarrow> Inl e
      | Inr header \<Rightarrow>
          (case pack_I file_size of
             Inl e \<Rightarrow> Inl e
           | Inr file_size_data \<Rightarrow> Inr (header @ file_size_data)))"

text \<open>
  \<^verbatim>\<open>packet[HEADER_SIZE : HEADER_SIZE + 4]\<close> is \<open>take 4 (drop HEADER_SIZE packet)\<close>.
  The header is unpacked before the length of the size field is tested, so a
  buffer shorter than the header raises \<^verbatim>\<open>struct.error\<close>, not \<^verbatim>\<open>ValueError\<close>.
\<close>

definition parseSynPacket :: "bytes \<Rightarrow> error + (int \<times> int \<times> int \<times> int)" where
  "parseSynPacket packet =
     (let header = take HEADER_SIZE packet;
          file_size_data = take 4 (drop HEADER_SIZE packet)
      in case unpack_HHH header of
           Inl e \<Rightarrow> Inl e
         | Inr (seq_no, ack_no, flags) \<Rightarrow>
             if length file_size_data < 4 then Inl ValueError
             else (case unpack_I file_size_data of
                     Inl e \<Rightarrow> Inl e
                   | Inr file_size \<Rightarrow> Inr (seq_no, ack_no, flags, file_size)))"

subsection \<open>The source file\<close>

text \<open>
  The file opened at line 275, in binary read mode: its bytes, which the
  program never writes, and the read position. A seek to a negative offset
  raises; a read past the end returns fewer bytes, or none.
\<close>

record file_obj =
  contents :: bytes
  pos :: nat

definition file_seek :: "int \<Rightarrow> file_obj \<Rightarrow> error + file_obj" where
  "file_seek off f = (if off < 0 then Inl OSError else Inr (f\<lparr>pos := nat off\<rparr>))"

definition file_read :: "nat \<Rightarrow> file_obj \<Rightarrow> bytes \<times> file_obj" where
  "file_read n f =
     (let data = take n (drop (pos f) (contents f))
      in (data, f\<lparr>pos := pos f + length data\<rparr>))"

subsection \<open>The sender's state\<close>

text \<open>
  What the program prints, without the formatting: a message with its numbers,
  and for a time-stamped line the clock reading it formats. \<open>Message\<close> is a
  line of fixed text.
\<close>

datatype log_entry =
    PacketSent nat int "int list"
  | Retransmitting nat int
  | AckReceived nat int
  | RTO nat
  | DataFinished
  | PacketReceived nat int
  | SendingAck nat int
  | OutOfOrder nat int
  | Message string

text \<open>
  The variables of the data phase of \<^verbatim>\<open>sendFile\<close> (lines 279-282) and what the
  phase acts on: the open file, the wall clock and the socket. Of the clock
  the model keeps how often it was read; a reading is its index, so a later
  reading is a greater number. \<open>sent\<close> is the list of the datagrams given to
  \<^verbatim>\<open>sendto\<close>, oldest first; \<^verbatim>\<open>sendto\<close> is taken not to fail.
\<close>

record sender =
  seq_num :: int
  window :: "int list"
  unack_packets :: "int \<rightharpoonup> nat"
  retransmit :: bool
  src_file :: file_obj
  clock :: nat
  sent :: "bytes list"
  log :: "log_entry list"

subsection \<open>sendPacket (lines 159-207)\<close>

text \<open>
  \<open>seek_read\<close> is \<^verbatim>\<open>file.seek(DATA_SIZE * (seq_num - 1)); data = file.read(DATA_SIZE)\<close>,
  which both branches of \<open>sendPacket\<close> start with; \<open>transmit\<close> is the part after
  the branches (lines 191-207): the clock is read, the packet built and sent,
  a line printed. The window is appended to before the packet is built, so a
  sequence number that does not fit the header raises after it has entered
  the window; the exception ends \<^verbatim>\<open>sendFile\<close>.
\<close>

definition seek_read :: "int \<Rightarrow> sender \<Rightarrow> error + bytes \<times> sender" where
  "seek_read sq st =
     (case file_seek (int DATA_SIZE * (sq - 1)) (src_file st) of
        Inl e \<Rightarrow> Inl e
      | Inr f1 \<Rightarrow>
          (case file_read DATA_SIZE f1 of
             (data, f2) \<Rightarrow> Inr (data, st\<lparr>src_file := f2\<rparr>)))"

definition transmit :: "int \<Rightarrow> bytes \<Rightarrow> bool \<Rightarrow> sender \<Rightarrow> error + bool \<times> sender" where
  "transmit sq data re st =
     (let current_time = clock st;
          st1 = st\<lparr>clock := Suc (clock st)\<rparr>
      in case createPacket sq 0 0 data of
           Inl e \<Rightarrow> Inl e
         | Inr packet \<Rightarrow>
             Inr (True,
                  st1\<lparr>sent := sent st1 @ [packet],
                      log := log st1 @ [if re then Retransmitting current_time sq
                                        else PacketSent current_time sq (window st1)]\<rparr>))"

definition sendPacket :: "int \<Rightarrow> sender \<Rightarrow> bool \<Rightarrow> error + bool \<times> sender" where
  "sendPacket sq st re =
     (if sq \<notin> set (window st) then
        (case seek_read sq st of
           Inl e \<Rightarrow> Inl e
         | Inr (data, st1) \<Rightarrow>
             if data = [] then Inr (False, st1)
             else transmit sq data re (st1\<lparr>window := window st1 @ [sq]\<rparr>))
      else
        (case seek_read sq st of
           Inl e \<Rightarrow> Inl e
         | Inr (data, st1) \<Rightarrow> transmit sq data re st1))"

text \<open>
  The payload of the data packet \<open>sq\<close> of a file with bytes \<open>c\<close>, and that
  packet: what \<open>sendPacket\<close> reads and builds, as functions of the file.
\<close>

definition chunk :: "bytes \<Rightarrow> int \<Rightarrow> bytes" where
  "chunk c sq = take DATA_SIZE (drop (nat (int DATA_SIZE * (sq - 1))) c)"

definition data_packet :: "bytes \<Rightarrow> int \<Rightarrow> error + bytes" where
  "data_packet c sq = createPacket sq 0 0 (chunk c sq)"

subsection \<open>The data loop of sendFile (lines 285-368)\<close>

text \<open>
  \<open>fill_window\<close> is the inner \<^verbatim>\<open>while len(window) < window_size\<close> loop, which
  the source has twice with the same body (lines 288-297 and 340-349).
\<close>

function fill_window :: "int \<Rightarrow> sender \<Rightarrow> error + sender" where
  "fill_window W st =
     (if int (length (window st)) < W then
        (case sendPacket (seq_num st) st (retransmit st) of
           Inl e \<Rightarrow> Inl e
         | Inr (ok, st1) \<Rightarrow>
             if ok then
               fill_window W (st1\<lparr>unack_packets := (unack_packets st1)(seq_num st1 \<mapsto> clock st1),
                                  clock := Suc (clock st1),
                                  seq_num := seq_num st1 + 1\<rparr>)
             else Inr st1)
      else Inr st)"
  by pat_completeness auto

definition sender_init :: "bytes \<Rightarrow> sender" where
  "sender_init c =
     \<lparr>seq_num = 1, window = [], unack_packets = Map.empty, retransmit = False,
      src_file = \<lparr>contents = c, pos = 0\<rparr>, clock = 0, sent = [], log = []\<rparr>"

text \<open>
  What follows a successful \<^verbatim>\<open>recvfrom\<close> (lines 307-349): the datagram is
  parsed, and if it has the ACK flag the window and the send-time map are
  filtered and the window refilled.
\<close>

definition process_response :: "int \<Rightarrow> sender \<Rightarrow> bytes \<Rightarrow> error + sender" where
  "process_response W st response =
     (case parsePacket response of
        Inl e \<Rightarrow> Inl e
      | Inr (_, ack_num, flags, _) \<Rightarrow>
          if flags AND FLAGS_ACK \<noteq> 0 then
            (let st1 = st\<lparr>clock := Suc (clock st),
                          log := log st @ [AckReceived (clock st) ack_num]\<rparr>;
                 filtered_window = filter (\<lambda>seq. seq > ack_num) (window st1);
                 filtered_unack_packets =
                   (\<lambda>seq. if seq > ack_num then unack_packets st1 seq else None)
             in fill_window W (st1\<lparr>window := filtered_window,
                                   unack_packets := filtered_unack_packets\<rparr>))
          else Inr st)"

text \<open>
  The handler of \<^verbatim>\<open>socket.timeout\<close> (lines 352-368). The \<^verbatim>\<open>for\<close> loop runs over
  the window; each member is in the window, so \<open>sendPacket\<close> takes its second
  branch and does not change the list that is iterated.
\<close>

fun retransmit_window :: "int list \<Rightarrow> sender \<Rightarrow> error + sender" where
  "retransmit_window [] st = Inr st"
| "retransmit_window (seq # rest) st =
     (let st1 = st\<lparr>retransmit := True\<rparr>
      in case sendPacket seq st1 (retransmit st1) of
           Inl e \<Rightarrow> Inl e
         | Inr (_, st2) \<Rightarrow>
             retransmit_window rest
               (st2\<lparr>unack_packets := (unack_packets st2)(seq \<mapsto> clock st2),
                    clock := Suc (clock st2)\<rparr>))"

definition process_timeout :: "sender \<Rightarrow> error + sender" where
  "process_timeout st =
     (let st1 = st\<lparr>clock := Suc (clock st), log := log st @ [RTO (clock st)]\<rparr>
      in case retransmit_window (window st1) st1 of
           Inl e \<Rightarrow> Inl e
         | Inr st2 \<Rightarrow> Inr (st2\<lparr>retransmit := False\<rparr>))"

text \<open>
  How an iteration of a \<^verbatim>\<open>while True\<close> loop ends: with the next iteration or
  with \<^verbatim>\<open>break\<close>.
\<close>

datatype 'a control = Continue 'a | Break 'a

fun state_of :: "'a control \<Rightarrow> 'a" where
  "state_of (Continue s) = s"
| "state_of (Break s) = s"

text \<open>
  An iteration of the data loop is \<open>loop_head\<close> (lines 288-302: refill, leave
  if the window is empty), then \<^verbatim>\<open>recvfrom\<close>, then \<open>loop_recv\<close> on what it
  returned or raised; only \<^verbatim>\<open>socket.timeout\<close> has a handler. \<open>data_loop\<close> runs
  the loop on the list of the results of the successive calls of \<^verbatim>\<open>recvfrom\<close>:
  \<open>Continue st\<close> is the loop waiting in \<^verbatim>\<open>recvfrom\<close> in state \<open>st\<close> with the
  list used up, \<open>Break st\<close> the loop left with the data finished.
\<close>

definition loop_head :: "int \<Rightarrow> sender \<Rightarrow> error + sender control" where
  "loop_head W st =
     (case fill_window W st of
        Inl e \<Rightarrow> Inl e
      | Inr st1 \<Rightarrow>
          if window st1 = [] then Inr (Break (st1\<lparr>log := log st1 @ [DataFinished]\<rparr>))
          else Inr (Continue st1))"

definition loop_recv :: "int \<Rightarrow> sender \<Rightarrow> error + bytes \<Rightarrow> error + sender" where
  "loop_recv W st rx =
     (case rx of
        Inr response \<Rightarrow> process_response W st response
      | Inl e \<Rightarrow> if e = SocketTimeout then process_timeout st else Inl e)"

fun data_loop :: "int \<Rightarrow> sender \<Rightarrow> (error + bytes) list \<Rightarrow> error + sender control" where
  "data_loop W st [] = loop_head W st"
| "data_loop W st (rx # rest) =
     (case loop_head W st of
        Inl e \<Rightarrow> Inl e
      | Inr (Break st1) \<Rightarrow> Inr (Break st1)
      | Inr (Continue st1) \<Rightarrow>
          (case loop_recv W st1 rx of
             Inl e \<Rightarrow> Inl e
           | Inr st2 \<Rightarrow> data_loop W st2 rest))"

subsection \<open>Auxiliary predicates for the proofs\<close>

text \<open>
  What every state of the data loop satisfies: the file is the one opened, the
  window is no longer than the configured size, and each member is a sequence
  number from 1 to 65535 below the next one, whose packet has been sent.
\<close>

definition sender_inv :: "int \<Rightarrow> bytes \<Rightarrow> sender \<Rightarrow> bool" where
  "sender_inv W c st \<longleftrightarrow>
     contents (src_file st) = c \<and> \<not> retransmit st \<and> 1 \<le> seq_num st
     \<and> int (length (window st)) \<le> max W 0
     \<and> (\<forall>s\<in>set (window st). 1 \<le> s \<and> s < seq_num st \<and> s \<le> 65535
            \<and> (\<exists>p\<in>set (sent st). data_packet c s = Inr p))"

text \<open>A result of \<^verbatim>\<open>recvfrom\<close> that the loop handles as an acknowledgment.\<close>

definition is_ack :: "error + bytes \<Rightarrow> bool" where
  "is_ack rx =
     (case rx of
        Inl e \<Rightarrow> False
      | Inr response \<Rightarrow>
          (case parsePacket response of
             Inl e \<Rightarrow> False
           | Inr (_, _, flags, _) \<Rightarrow> flags AND FLAGS_ACK \<noteq> 0))"

text \<open>
  The facts that hold from the handling of an acknowledgment \<open>A\<close> below the
  next sequence number until the next acknowledgment.
\<close>

definition acked_above :: "int \<Rightarrow> int \<Rightarrow> bytes \<Rightarrow> sender \<Rightarrow> bool" where
  "acked_above A W c st \<longleftrightarrow>
     sender_inv W c st \<and> A < seq_num st \<and> (\<forall>s\<in>set (window st). A < s)"

subsection \<open>The UDP socket\<close>

text \<open>
  Of a socket the model keeps its timeout, in milliseconds: a new socket has
  none (it blocks), \<^verbatim>\<open>settimeout\<close> sets one, \<^verbatim>\<open>bind\<close> does not change it.
  While \<^verbatim>\<open>recvfrom\<close> waits, the network delivers a datagram, or stays silent,
  or the operating system reports a reset or another fault. \<^verbatim>\<open>recvfrom\<close> returns
  at most \<open>bufsize\<close> bytes of a datagram; on silence it raises
  \<^verbatim>\<open>socket.timeout\<close> when the socket has a timeout and never returns when it has
  none, which is the result \<open>None\<close>.
\<close>

record sock =
  sock_timeout :: "nat option"

definition socket_new :: sock where
  "socket_new = \<lparr>sock_timeout = None\<rparr>"

definition settimeout :: "nat \<Rightarrow> sock \<Rightarrow> sock" where
  "settimeout ms s = s\<lparr>sock_timeout := Some ms\<rparr>"

datatype event = Datagram bytes | Silence | Reset | Fault

definition recvfrom :: "sock \<Rightarrow> nat \<Rightarrow> event \<Rightarrow> (error + bytes) option" where
  "recvfrom s bufsize ev =
     (case ev of
        Datagram d \<Rightarrow> Some (Inr (take bufsize d))
      | Silence \<Rightarrow>
          (case sock_timeout s of
             None \<Rightarrow> None
           | Some ms \<Rightarrow> Some (Inl SocketTimeout))
      | Reset \<Rightarrow> Some (Inl ConnectionResetError)
      | Fault \<Rightarrow> Some (Inl SocketError))"

text \<open>The socket of \<^verbatim>\<open>sendFile\<close> (lines 229-232): created, then \<^verbatim>\<open>settimeout(0.5)\<close>.\<close>

definition sendFile_sock :: sock where
  "sendFile_sock = settimeout 500 socket_new"

text \<open>
  The socket of \<^verbatim>\<open>receiveFile\<close> (lines 412-415): created and bound. No line of
  \<^verbatim>\<open>receiveFile\<close> sets a timeout on it.
\<close>

definition receiveFile_sock :: sock where
  "receiveFile_sock = socket_new"

subsection \<open>The sender's handshake (lines 235-272)\<close>

record syn_sent =
  syn_packet :: bytes
  s_seq_num :: int
  s_ack_num :: int
  s_flags :: int
  s_file_size :: int
  s_sent :: "bytes list"
  s_log :: "log_entry list"

text \<open>
  How an iteration of the loop that waits for the SYN-ACK ends: with the next
  iteration, with \<^verbatim>\<open>break\<close>, or with the \<^verbatim>\<open>return\<close> of the two handlers of
  connection errors.
\<close>

datatype 'a syn_wait = Waiting 'a | SynAckReceived 'a | ConnectionFailed 'a

definition sendFile_start :: "int \<Rightarrow> error + syn_sent" where
  "sendFile_start filesize =
     (case createSynPacket 0 0 FLAGS_SYN filesize of
        Inl e \<Rightarrow> Inl e
      | Inr syn \<Rightarrow>
          Inr \<lparr>syn_packet = syn, s_seq_num = 0, s_ack_num = 0, s_flags = 0, s_file_size = 0,
               s_sent = [syn], s_log = [Message ''SYN packet is sent'']\<rparr>)"

text \<open>
  The \<^verbatim>\<open>try\<close> block has handlers for \<^verbatim>\<open>socket.timeout\<close>,
  \<^verbatim>\<open>ConnectionResetError\<close> and \<^verbatim>\<open>socket.error\<close>. What \<open>parseSynPacket\<close> raises
  (\<^verbatim>\<open>struct.error\<close>, \<^verbatim>\<open>ValueError\<close>) is none of them, nor a subclass of one,
  so it leaves the loop and \<^verbatim>\<open>sendFile\<close>.
\<close>

definition syn_wait_iter :: "syn_sent \<Rightarrow> error + bytes \<Rightarrow> error + syn_sent syn_wait" where
  "syn_wait_iter st rx =
     (case rx of
        Inr response \<Rightarrow>
          (case parseSynPacket response of
             Inl e \<Rightarrow> Inl e
           | Inr (seq_no, ack_no, flags, file_size) \<Rightarrow>
               (let st1 = st\<lparr>s_seq_num := seq_no, s_ack_num := ack_no, s_flags := flags,
                              s_file_size := file_size\<rparr>
                in if flags AND FLAGS_SYN \<noteq> 0 \<and> flags AND FLAGS_ACK \<noteq> 0
                   then Inr (SynAckReceived
                          (st1\<lparr>s_log := s_log st1 @ [Message ''SYN-ACK packet is received'']\<rparr>))
                   else Inr (Waiting st1)))
      | Inl e \<Rightarrow>
          if e = SocketTimeout then
            Inr (Waiting (st\<lparr>s_sent := s_sent st @ [syn_packet st],
                             s_log := s_log st @ [Message ''Resending SYN packet'']\<rparr>))
          else if e = ConnectionResetError \<or> e = SocketError then
            Inr (ConnectionFailed (st\<lparr>s_log := s_log st @ [Message ''Connection failed'']\<rparr>))
          else Inl e)"

definition syn_wait_step :: "syn_sent \<Rightarrow> event \<Rightarrow> (error + syn_sent syn_wait) option" where
  "syn_wait_step st ev =
     map_option (syn_wait_iter st) (recvfrom sendFile_sock MAX_PACKET_SIZE ev)"

definition send_handshake_ack :: "syn_sent \<Rightarrow> error + syn_sent" where
  "send_handshake_ack st =
     (case createPacket 1 (s_seq_num st + 1) FLAGS_ACK [] of
        Inl e \<Rightarrow> Inl e
      | Inr ack_packet \<Rightarrow>
          Inr (st\<lparr>s_sent := s_sent st @ [ack_packet],
                  s_log := s_log st @ [Message ''ACK packet is sent'']\<rparr>))"

subsection \<open>The receiver (lines 395-502)\<close>

text \<open>
  The variables of \<^verbatim>\<open>receiveFile\<close>. \<open>r_seq_num\<close>, \<open>r_ack_num\<close>, \<open>r_flags\<close>
  and \<open>r_data\<close> are the variables the last parsed packet was unpacked into; they
  keep their values over an iteration in which nothing was received. A
  variable that Python has not bound yet holds 0 or the empty value; no path
  reads it before it is assigned.
\<close>

record receiver =
  expected_seq_num :: int
  received_data :: "int \<rightharpoonup> bytes"
  discard :: "int option"
  r_seq_num :: int
  r_ack_num :: int
  r_flags :: int
  r_data :: bytes
  r_file_size :: int
  r_clock :: nat
  r_sent :: "bytes list"
  r_log :: "log_entry list"

definition receiver_init :: "int option \<Rightarrow> receiver" where
  "receiver_init d =
     \<lparr>expected_seq_num = 0, received_data = Map.empty, discard = d,
      r_seq_num = 0, r_ack_num = 0, r_flags = 0, r_data = [], r_file_size = 0,
      r_clock = 0, r_sent = [], r_log = []\<rparr>"

text \<open>Waiting for the SYN (lines 418-432). The loop has no \<^verbatim>\<open>try\<close>.\<close>

definition listen_iter :: "receiver \<Rightarrow> error + bytes \<Rightarrow> error + receiver control" where
  "listen_iter st rx =
     (case rx of
        Inl e \<Rightarrow> Inl e
      | Inr data \<Rightarrow>
          (case parseSynPacket data of
             Inl e \<Rightarrow> Inl e
           | Inr (seq_no, ack_no, flags, file_size) \<Rightarrow>
               (let st1 = st\<lparr>r_data := data, r_seq_num := seq_no, r_ack_num := ack_no,
                              r_flags := flags, r_file_size := file_size\<rparr>
                in if flags AND FLAGS_SYN \<noteq> 0 then
                     (case createSynPacket (seq_no + 1) 0 (FLAGS_SYN OR FLAGS_ACK) file_size of
                        Inl e \<Rightarrow> Inl e
                      | Inr syn_ack_packet \<Rightarrow>
                          Inr (Break (st1\<lparr>r_sent := r_sent st1 @ [syn_ack_packet],
                                          r_log := r_log st1 @ [Message ''SYN packet is received'',
                                                                Message ''SYN-ACK packet is sent'']\<rparr>)))
                   else Inr (Continue st1))))"

text \<open>Waiting for the ACK of the handshake (lines 435-452).\<close>

definition await_ack_iter :: "receiver \<Rightarrow> error + bytes \<Rightarrow> error + receiver control" where
  "await_ack_iter st rx =
     (case rx of
        Inl e \<Rightarrow> Inl e
      | Inr dgram \<Rightarrow>
          (case parsePacket dgram of
             Inl e \<Rightarrow> Inl e
           | Inr (seq_no, ack_no, flags, data) \<Rightarrow>
               (let st1 = st\<lparr>r_seq_num := seq_no, r_ack_num := ack_no, r_flags := flags,
                              r_data := data\<rparr>
                in if flags AND FLAGS_ACK \<noteq> 0
                   then Inr (Break (st1\<lparr>r_log := r_log st1 @ [Message ''ACK packet is received'']\<rparr>))
                   else Inr (Continue st1))))"

definition connection_established :: "receiver \<Rightarrow> receiver" where
  "connection_established st =
     st\<lparr>r_log := r_log st @ [Message ''Connection established''],
        expected_seq_num := 1,
        received_data := Map.empty\<rparr>"

text \<open>
  The check of the FIN flag that ends every iteration of the receive loop but
  the discarded one (lines 494-502). It reads \<open>r_flags\<close> and \<open>r_seq_num\<close>,
  whatever iteration assigned them.
\<close>

definition fin_check :: "receiver \<Rightarrow> error + receiver control" where
  "fin_check st =
     (if r_flags st AND FLAGS_FIN \<noteq> 0 then
        (case createPacket (r_seq_num st + 1) 0 (FLAGS_ACK OR FLAGS_FIN) [] of
           Inl e \<Rightarrow> Inl e
         | Inr fin_ack_packet \<Rightarrow>
             Inr (Break (st\<lparr>r_sent := r_sent st @ [fin_ack_packet],
                            r_log := r_log st @ [Message ''FIN packet is received'',
                                                 Message ''FIN-ACK packet is sent'']\<rparr>)))
      else Inr (Continue st))"

text \<open>
  One iteration of the receive loop (lines 455-502), given what \<^verbatim>\<open>recvfrom\<close>
  returned or raised. \<^verbatim>\<open>continue\<close> after a discarded packet skips the check of
  the FIN flag; only \<^verbatim>\<open>socket.timeout\<close> has a handler.
\<close>

definition receive_iter :: "receiver \<Rightarrow> error + bytes \<Rightarrow> error + receiver control" where
  "receive_iter st rx =
     (let format_time = r_clock st;
          st0 = st\<lparr>r_clock := Suc (r_clock st)\<rparr>
      in case rx of
           Inr dgram \<Rightarrow>
             (case parsePacket dgram of
                Inl e \<Rightarrow> Inl e
              | Inr (seq_no, ack_no, flags, data) \<Rightarrow>
                  (let st1 = st0\<lparr>r_seq_num := seq_no, r_ack_num := ack_no, r_flags := flags,
                                  r_data := data\<rparr>
                   in if Some seq_no = discard st1 then Inr (Continue (st1\<lparr>discard := None\<rparr>))
                      else if seq_no = expected_seq_num st1 then
                        (case createPacket 0 seq_no FLAGS_ACK [] of
                           Inl e \<Rightarrow> Inl e
                         | Inr ack_packet \<Rightarrow>
                             fin_check
                               (st1\<lparr>r_log := r_log st1 @ [PacketReceived format_time seq_no,
                                                            SendingAck format_time seq_no],
                                    r_sent := r_sent st1 @ [ack_packet],
                                    expected_seq_num := expected_seq_num st1 + 1,
                                    received_data := (received_data st1)(seq_no \<mapsto> data)\<rparr>))
                      else fin_check (st1\<lparr>r_log := r_log st1 @ [OutOfOrder format_time seq_no]\<rparr>)))
         | Inl e \<Rightarrow>
             if e = SocketTimeout then fin_check (st0\<lparr>r_log := r_log st0 @ [RTO format_time]\<rparr>)
             else Inl e)"

text \<open>The iteration with its call of \<^verbatim>\<open>recvfrom\<close> on the receiver's socket.\<close>

definition receive_step :: "receiver \<Rightarrow> event \<Rightarrow> (error + receiver control) option" where
  "receive_step st ev =
     map_option (receive_iter st) (recvfrom receiveFile_sock MAX_PACKET_SIZE ev)"

section \<open>Properties of the codec\<close>

lemma uint_byte_low: "uint (word_of_int v :: byte) = v mod 256"
  by (simp add: uint_word_of_int)

lemma unpack_pack_H:
  assumes "0 \<le> v" "v \<le> 65535"
  shows "unpack_H (word_of_int v) (word_of_int (v div 256)) = v"
proof -
  have "v div 256 < 256" using assms by simp
  moreover have "0 \<le> v div 256" using assms by simp
  ultimately have "(v div 256) mod 256 = v div 256" by simp
  then show ?thesis
    by (simp add: unpack_H_def uint_byte_low)
qed

lemma pack_HHH_ok:
  assumes "0 \<le> a" "a \<le> 65535" "0 \<le> b" "b \<le> 65535" "0 \<le> c" "c \<le> 65535"
  shows "pack_HHH a b c =
     Inr [word_of_int a, word_of_int (a div 256), word_of_int b, word_of_int (b div 256),
          word_of_int c, word_of_int (c div 256)]"
  using assms by (simp add: pack_HHH_def pack_H_def)

lemma unpack_pack_HHH:
  assumes "0 \<le> a" "a \<le> 65535" "0 \<le> b" "b \<le> 65535" "0 \<le> c" "c \<le> 65535"
  shows "unpack_HHH [word_of_int a, word_of_int (a div 256), word_of_int b,
                     word_of_int (b div 256), word_of_int c, word_of_int (c div 256)]
         = Inr (a, b, c)"
  using assms by (simp add: unpack_HHH_def unpack_pack_H)

lemma le4_compose:
  fixes v a b c d0 d1 d2 :: int
  assumes "v = d0 + 256 * a" "a = d1 + 256 * b" "b = d2 + 256 * c"
  shows "d0 + 256 * d1 + 65536 * d2 + 16777216 * c = v"
  using assms by simp

lemma le4_digits:
  "(v::int) mod 256 + 256 * ((v div 256) mod 256) + 65536 * ((v div 65536) mod 256)
     + 16777216 * (v div 16777216) = v"
proof -
  have a: "v = v mod 256 + 256 * (v div 256)" by simp
  have b: "v div 256 = (v div 256) mod 256 + 256 * (v div 256 div 256)" by simp
  have c: "v div 256 div 256
             = (v div 256 div 256) mod 256 + 256 * (v div 256 div 256 div 256)" by simp
  have d: "v div 256 div 256 = v div 65536" by (simp add: div_mult2_eq[symmetric])
  have e: "v div 65536 div 256 = v div 16777216" by (simp add: div_mult2_eq[symmetric])
  from le4_compose[OF a b c] show ?thesis unfolding d e .
qed

lemma unpack_pack_I:
  assumes "0 \<le> v" "v \<le> 4294967295"
  shows "unpack_I [word_of_int v, word_of_int (v div 256), word_of_int (v div 65536),
                   word_of_int (v div 16777216)] = Inr v"
proof -
  have "0 \<le> v div 16777216" "v div 16777216 < 256"
    using assms by simp_all
  then have hi: "(v div 16777216) mod 256 = v div 16777216"
    by simp
  have "unpack_I [word_of_int v, word_of_int (v div 256), word_of_int (v div 65536),
                  word_of_int (v div 16777216)]
        = Inr (v mod 256 + 256 * ((v div 256) mod 256) + 65536 * ((v div 65536) mod 256)
               + 16777216 * (v div 16777216))"
    by (simp add: unpack_I_def uint_byte_low hi)
  then show ?thesis
    by (simp only: le4_digits)
qed

lemma parsePacket_short: "length b < 6 \<Longrightarrow> parsePacket b = Inl StructError"
  by (simp add: parsePacket_def unpack_HHH_def HEADER_SIZE_def)

lemma parsePacket_long:
  "6 \<le> length b \<Longrightarrow>
     parsePacket b = Inr (unpack_H (b ! 0) (b ! 1), unpack_H (b ! 2) (b ! 3),
                          unpack_H (b ! 4) (b ! 5), drop 6 b)"
  by (simp add: parsePacket_def unpack_HHH_def HEADER_SIZE_def)

lemma parseSynPacket_short: "length b < 6 \<Longrightarrow> parseSynPacket b = Inl StructError"
  by (simp add: parseSynPacket_def unpack_HHH_def HEADER_SIZE_def)

lemma parseSynPacket_mid:
  assumes "6 \<le> length b" "length b < 10"
  shows "parseSynPacket b = Inl ValueError"
proof -
  have "length (take 4 (drop 6 b)) < 4"
    using assms by simp
  moreover have "length (take 6 b) = 6"
    using assms by simp
  ultimately show ?thesis
    unfolding parseSynPacket_def unpack_HHH_def HEADER_SIZE_def Let_def
    by (simp del: length_take length_drop take_drop)
qed

lemma parseSynPacket_long:
  "10 \<le> length b \<Longrightarrow> \<exists>r. parseSynPacket b = Inr r"
  by (simp add: parseSynPacket_def unpack_HHH_def unpack_I_def HEADER_SIZE_def)

lemma parse_createPacket:
  assumes "0 \<le> s" "s \<le> 65535" "0 \<le> a" "a \<le> 65535" "0 \<le> f" "f \<le> 65535"
  shows "\<exists>pkt. createPacket s a f payload = Inr pkt
           \<and> parsePacket pkt = Inr (s, a, f, payload)"
  using assms
  by (simp add: createPacket_def pack_HHH_ok parsePacket_def HEADER_SIZE_def unpack_pack_HHH)

lemma parse_createSynPacket:
  assumes "0 \<le> s" "s \<le> 65535" "0 \<le> a" "a \<le> 65535" "0 \<le> f" "f \<le> 65535"
    and "0 \<le> n" "n \<le> 4294967295"
  shows "\<exists>pkt. createSynPacket s a f n = Inr pkt
           \<and> parseSynPacket pkt = Inr (s, a, f, n)"
  using assms
  by (simp add: createSynPacket_def pack_HHH_ok pack_I_def parseSynPacket_def HEADER_SIZE_def
      unpack_pack_HHH unpack_pack_I)

section \<open>Properties of the sender\<close>

subsection \<open>What one call of sendPacket does; the refill loop terminates\<close>

lemma seek_read_eq:
  "seek_read sq st =
     (if sq < 1 then Inl OSError
      else Inr (chunk (contents (src_file st)) sq,
                st\<lparr>src_file := (src_file st)\<lparr>pos := nat (int DATA_SIZE * (sq - 1))
                                        + length (chunk (contents (src_file st)) sq)\<rparr>\<rparr>))"
  by (simp add: seek_read_def file_seek_def file_read_def chunk_def Let_def DATA_SIZE_def)

lemma createPacket_eq:
  "createPacket s a f d =
     (if 0 \<le> s \<and> s \<le> 65535 \<and> 0 \<le> a \<and> a \<le> 65535 \<and> 0 \<le> f \<and> f \<le> 65535
      then Inr ([word_of_int s, word_of_int (s div 256), word_of_int a, word_of_int (a div 256),
                 word_of_int f, word_of_int (f div 256)] @ d)
      else Inl StructError)"
  by (simp add: createPacket_def pack_HHH_def pack_H_def)

lemma sendPacket_result:
  assumes "sendPacket sq st re = Inr (ok, st')"
  shows "contents (src_file st') = contents (src_file st)"
    and "seq_num st' = seq_num st"
    and "unack_packets st' = unack_packets st"
    and "retransmit st' = retransmit st"
    and "1 \<le> sq"
    and "ok \<Longrightarrow> sq \<le> 65535"
    and "ok \<Longrightarrow> window st' = (if sq \<in> set (window st) then window st else window st @ [sq])"
    and "ok \<Longrightarrow> \<exists>p. data_packet (contents (src_file st)) sq = Inr p \<and> sent st' = sent st @ [p]"
    and "ok \<Longrightarrow> clock st' = Suc (clock st)"
    and "ok \<Longrightarrow> sq \<notin> set (window st) \<Longrightarrow> chunk (contents (src_file st)) sq \<noteq> []"
    and "\<not> ok \<Longrightarrow> sq \<notin> set (window st) \<and> chunk (contents (src_file st)) sq = []
            \<and> window st' = window st \<and> sent st' = sent st \<and> clock st' = clock st
            \<and> log st' = log st"
  using assms
  by (auto simp: sendPacket_def seek_read_eq transmit_def Let_def data_packet_def createPacket_eq
      split: if_splits)

lemma filter_ge_shrinks:
  "(sq::int) \<in> set xs \<Longrightarrow>
     length (filter (\<lambda>s. sq + 1 \<le> s) xs) < length (filter (\<lambda>s. sq \<le> s) xs)"
proof (induction xs)
  case Nil
  then show ?case by simp
next
  case (Cons x xs)
  have le: "length (filter (\<lambda>s. sq + 1 \<le> s) xs) \<le> length (filter (\<lambda>s. sq \<le> s) xs)"
    by (induction xs) auto
  show ?case
  proof (cases "x = sq")
    case True
    with le show ?thesis by simp
  next
    case False
    with Cons show ?thesis by auto
  qed
qed

lemma filter_ge_mono:
  "length (filter (\<lambda>s. (sq::int) + 1 \<le> s) xs) \<le> length (filter (\<lambda>s. sq \<le> s) xs)"
  by (induction xs) auto

termination fill_window
proof (relation "measure (\<lambda>(W, st). nat (W - int (length (window st)))
                    + length (filter (\<lambda>s. seq_num st \<le> s) (window st)))", goal_cases)
  case 1
  then show ?case by simp
next
  case (2 W st x2 ok st1)
  then have r: "sendPacket (seq_num st) st (retransmit st) = Inr (True, st1)"
    by simp
  note w = sendPacket_result(7) [OF r] and s = sendPacket_result(2) [OF r]
  show ?case
  proof (cases "seq_num st \<in> set (window st)")
    case True
    with w s filter_ge_shrinks [OF True] show ?thesis by simp
  next
    case False
    with w s 2(1) filter_ge_mono [of "seq_num st" "window st"] show ?thesis
      by simp
  qed
qed

declare fill_window.simps [simp del]

subsection \<open>The refill loop\<close>

lemma fill_window_cases:
  assumes "fill_window W st = Inr st'"
  obtains (full) "\<not> int (length (window st)) < W" "st' = st"
  | (eof) "int (length (window st)) < W"
      "sendPacket (seq_num st) st (retransmit st) = Inr (False, st')"
  | (step) st1 where "int (length (window st)) < W"
      "sendPacket (seq_num st) st (retransmit st) = Inr (True, st1)"
      "fill_window W (st1\<lparr>unack_packets := (unack_packets st1)(seq_num st1 \<mapsto> clock st1),
                         clock := Suc (clock st1),
                         seq_num := seq_num st1 + 1\<rparr>) = Inr st'"
  using assms
  by (subst (asm) fill_window.simps) (auto split: if_splits sum.splits)

lemma fill_window_structure:
  assumes "fill_window W st = Inr st'" and "\<forall>s\<in>set (window st). s < seq_num st"
  shows "seq_num st \<le> seq_num st'
       \<and> window st' = window st @ [seq_num st .. seq_num st' - 1]
       \<and> contents (src_file st') = contents (src_file st)
       \<and> retransmit st' = retransmit st
       \<and> clock st \<le> clock st'
       \<and> (seq_num st < seq_num st' \<longrightarrow> 1 \<le> seq_num st \<and> seq_num st' \<le> 65536)"
  using assms
proof (induction W st rule: fill_window.induct)
  case (1 W st)
  from "1.prems"(1) show ?case
  proof (cases rule: fill_window_cases)
    case full
    then show ?thesis by simp
  next
    case eof
    from sendPacket_result(1-4) [OF eof(2)] sendPacket_result(11) [OF eof(2)]
    show ?thesis by simp
  next
    case (step st1)
    let ?st2 = "st1\<lparr>unack_packets := (unack_packets st1)(seq_num st1 \<mapsto> clock st1),
                     clock := Suc (clock st1), seq_num := seq_num st1 + 1\<rparr>"
    note r = sendPacket_result [OF step(2)]
    have nin: "seq_num st \<notin> set (window st)"
      using "1.prems"(2) by auto
    have w1: "window st1 = window st @ [seq_num st]"
      using r(7) nin by simp
    have pre: "\<forall>s\<in>set (window ?st2). s < seq_num ?st2"
      using "1.prems"(2) w1 r(2) by auto
    have ih: "seq_num ?st2 \<le> seq_num st'
       \<and> window st' = window ?st2 @ [seq_num ?st2 .. seq_num st' - 1]
       \<and> contents (src_file st') = contents (src_file ?st2)
       \<and> retransmit st' = retransmit ?st2
       \<and> clock ?st2 \<le> clock st'
       \<and> (seq_num ?st2 < seq_num st' \<longrightarrow> 1 \<le> seq_num ?st2 \<and> seq_num st' \<le> 65536)"
      using "1.IH" [OF step(1) step(2) refl _ step(3) pre] by simp
    have le: "seq_num st + 1 \<le> seq_num st'"
      using ih r(2) by simp
    have up: "[seq_num st .. seq_num st' - 1] = seq_num st # [seq_num st + 1 .. seq_num st' - 1]"
      using le by (simp add: upto_rec1)
    have hi: "seq_num st' \<le> 65536"
    proof (cases "seq_num st + 1 < seq_num st'")
      case True
      with ih r(2) show ?thesis by simp
    next
      case False
      with le r(6) show ?thesis by simp
    qed
    show ?thesis
      using ih w1 r(1,2,4,5,9) up le hi by simp
  qed
qed

lemma fill_window_sent:
  assumes "fill_window W st = Inr st'" and "\<forall>s\<in>set (window st). s < seq_num st"
  shows "\<exists>ps. sent st' = sent st @ ps
           \<and> list_all2 (\<lambda>p s. data_packet (contents (src_file st)) s = Inr p) ps
                 [seq_num st .. seq_num st' - 1]"
  using assms
proof (induction W st rule: fill_window.induct)
  case (1 W st)
  from "1.prems"(1) show ?case
  proof (cases rule: fill_window_cases)
    case full
    then show ?thesis by simp
  next
    case eof
    from sendPacket_result(2) [OF eof(2)] sendPacket_result(11) [OF eof(2)]
    show ?thesis by simp
  next
    case (step st1)
    let ?st2 = "st1\<lparr>unack_packets := (unack_packets st1)(seq_num st1 \<mapsto> clock st1),
                     clock := Suc (clock st1), seq_num := seq_num st1 + 1\<rparr>"
    let ?c = "contents (src_file st)"
    note r = sendPacket_result [OF step(2)]
    have nin: "seq_num st \<notin> set (window st)"
      using "1.prems"(2) by auto
    have w1: "window st1 = window st @ [seq_num st]"
      using r(7) nin by simp
    have pre: "\<forall>s\<in>set (window ?st2). s < seq_num ?st2"
      using "1.prems"(2) w1 r(2) by auto
    from "1.IH" [OF step(1) step(2) refl _ step(3) pre]
    obtain ps where ps: "sent st' = sent ?st2 @ ps"
      "list_all2 (\<lambda>p s. data_packet (contents (src_file ?st2)) s = Inr p) ps
          [seq_num ?st2 .. seq_num st' - 1]"
      by auto
    from r(8) obtain p where p: "data_packet ?c (seq_num st) = Inr p" "sent st1 = sent st @ [p]"
      by auto
    have le: "seq_num st + 1 \<le> seq_num st'"
      using fill_window_structure [OF step(3) pre] r(2) by simp
    have up: "[seq_num st .. seq_num st' - 1] = seq_num st # [seq_num st + 1 .. seq_num st' - 1]"
      using le by (simp add: upto_rec1)
    have "sent st' = sent st @ (p # ps)"
      using ps(1) p(2) by simp
    moreover have "list_all2 (\<lambda>p s. data_packet ?c s = Inr p) (p # ps)
        [seq_num st .. seq_num st' - 1]"
      using ps(2) p(1) r(1,2) up by simp
    ultimately show ?thesis by blast
  qed
qed


lemma fill_window_full:
  assumes "fill_window W st = Inr st'"
  shows "(W \<le> int (length (window st'))
           \<or> chunk (contents (src_file st')) (seq_num st') = [])
       \<and> int (length (window st')) \<le> max W (int (length (window st)))"
  using assms
proof (induction W st rule: fill_window.induct)
  case (1 W st)
  from "1.prems"(1) show ?case
  proof (cases rule: fill_window_cases)
    case full
    then show ?thesis by simp
  next
    case eof
    from sendPacket_result(1,2) [OF eof(2)] sendPacket_result(11) [OF eof(2)] eof(1)
    show ?thesis by simp
  next
    case (step st1)
    note r = sendPacket_result [OF step(2)]
    note ih = "1.IH" [OF step(1) step(2) refl _ step(3), simplified]
    have "length (window st1) \<le> Suc (length (window st))"
      using r(7) by simp
    with ih step(1) show ?thesis by auto
  qed
qed



lemma sendPacket_member_total:
  assumes "1 \<le> sq" "sq \<le> 65535" "sq \<in> set (window st)"
  shows "\<exists>st1. sendPacket sq st re = Inr (True, st1)"
  using assms
  by (simp add: sendPacket_def seek_read_eq transmit_def Let_def createPacket_eq)




subsection \<open>The invariant: refill, timeout, acknowledgment, the whole loop\<close>

lemma sender_inv_init: "sender_inv W c (sender_init c)"
  by (simp add: sender_inv_def sender_init_def)

lemma list_all2_witness:
  "list_all2 P ps xs \<Longrightarrow> x \<in> set xs \<Longrightarrow> \<exists>p\<in>set ps. P p x"
  by (metis in_set_conv_nth list_all2_conv_all_nth)

lemma sender_inv_fill:
  assumes inv: "sender_inv W c st" and fill: "fill_window W st = Inr st'"
  shows "sender_inv W c st'"
proof -
  have pre: "\<forall>s\<in>set (window st). s < seq_num st"
    using inv by (simp add: sender_inv_def)
  have cst: "contents (src_file st) = c"
    using inv by (simp add: sender_inv_def)
  note str = fill_window_structure [OF fill pre]
  from fill_window_sent [OF fill pre] obtain ps where
    ps: "sent st' = sent st @ ps"
        "list_all2 (\<lambda>p s. data_packet c s = Inr p) ps [seq_num st .. seq_num st' - 1]"
    unfolding cst by blast
  have "1 \<le> s \<and> s < seq_num st' \<and> s \<le> 65535 \<and> (\<exists>p\<in>set (sent st'). data_packet c s = Inr p)"
    if s: "s \<in> set (window st')" for s
  proof (cases "s \<in> set (window st)")
    case True
    with inv str ps(1) show ?thesis
      by (auto simp: sender_inv_def)
  next
    case False
    with s str have rng: "seq_num st \<le> s" "s \<le> seq_num st' - 1"
      by auto
    then have "s \<in> set [seq_num st .. seq_num st' - 1]" by simp
    from list_all2_witness [OF ps(2) this] ps(1)
    have "\<exists>p\<in>set (sent st'). data_packet c s = Inr p" by auto
    moreover have "seq_num st < seq_num st'" using rng by simp
    ultimately show ?thesis
      using str rng by auto
  qed
  moreover have "contents (src_file st') = c" "\<not> retransmit st'" "1 \<le> seq_num st'"
    using str inv by (auto simp: sender_inv_def)
  moreover have "int (length (window st')) \<le> max W 0"
    using fill_window_full [OF fill] inv by (auto simp: sender_inv_def)
  ultimately show ?thesis
    unfolding sender_inv_def by blast
qed

lemma retransmit_window_props:
  assumes "\<forall>s\<in>set ws. 1 \<le> s \<and> s \<le> 65535 \<and> s \<in> set (window st)"
  shows "\<exists>st' ps. retransmit_window ws st = Inr st'
           \<and> window st' = window st \<and> seq_num st' = seq_num st
           \<and> contents (src_file st') = contents (src_file st)
           \<and> clock st \<le> clock st'
           \<and> sent st' = sent st @ ps
           \<and> list_all2 (\<lambda>p s. data_packet (contents (src_file st)) s = Inr p) ps ws
           \<and> (\<forall>s. s \<notin> set ws \<longrightarrow> unack_packets st' s = unack_packets st s)
           \<and> (\<forall>s\<in>set ws. \<exists>t. unack_packets st' s = Some t \<and> clock st < t \<and> t < clock st')"
  using assms
proof (induction ws arbitrary: st)
  case Nil
  then show ?case by simp
next
  case (Cons sq rest)
  let ?c = "contents (src_file st)"
  let ?st1 = "st\<lparr>retransmit := True\<rparr>"
  have m: "1 \<le> sq" "sq \<le> 65535" "sq \<in> set (window ?st1)"
    using Cons.prems by simp_all
  from sendPacket_member_total [OF m] obtain st2 where
    sp: "sendPacket sq ?st1 (retransmit ?st1) = Inr (True, st2)"
    by blast
  note r = sendPacket_result [OF sp]
  have w2: "window st2 = window st" using r(7) m(3) by simp
  have c2: "clock st2 = Suc (clock st)" using r(9) by simp
  have f2: "contents (src_file st2) = ?c" using r(1) by simp
  have q2: "seq_num st2 = seq_num st" using r(2) by simp
  have u2: "unack_packets st2 = unack_packets st" using r(3) by simp
  from r(8) obtain p where p: "data_packet ?c sq = Inr p" "sent st2 = sent st @ [p]"
    by auto
  let ?st3 = "st2\<lparr>unack_packets := (unack_packets st2)(sq \<mapsto> clock st2),
                   clock := Suc (clock st2)\<rparr>"
  have pre3: "\<forall>s\<in>set rest. 1 \<le> s \<and> s \<le> 65535 \<and> s \<in> set (window ?st3)"
    using Cons.prems w2 by simp
  from Cons.IH [OF pre3] obtain st' ps where
    ih: "retransmit_window rest ?st3 = Inr st'"
        "window st' = window ?st3" "seq_num st' = seq_num ?st3"
        "contents (src_file st') = contents (src_file ?st3)"
        "clock ?st3 \<le> clock st'"
        "sent st' = sent ?st3 @ ps"
        "list_all2 (\<lambda>p s. data_packet (contents (src_file ?st3)) s = Inr p) ps rest"
        "\<forall>s. s \<notin> set rest \<longrightarrow> unack_packets st' s = unack_packets ?st3 s"
        "\<forall>s\<in>set rest. \<exists>t. unack_packets st' s = Some t \<and> clock ?st3 < t \<and> t < clock st'"
    by blast
  have s3: "window ?st3 = window st" "seq_num ?st3 = seq_num st"
    "contents (src_file ?st3) = ?c" "clock ?st3 = Suc (Suc (clock st))"
    "sent ?st3 = sent st @ [p]"
    "unack_packets ?st3 = (unack_packets st)(sq \<mapsto> Suc (clock st))"
    using w2 c2 f2 q2 u2 p(2) by simp_all
  have run: "retransmit_window (sq # rest) st = Inr st'"
    using sp ih(1) by (simp add: Let_def)
  have snt: "sent st' = sent st @ (p # ps)"
    using ih(6) s3(5) by simp
  have pk: "list_all2 (\<lambda>p s. data_packet ?c s = Inr p) (p # ps) (sq # rest)"
    using ih(7) p(1) unfolding s3(3) by simp
  have clk: "clock st \<le> clock st'"
    using ih(5) unfolding s3(4) by simp
  have keep: "\<forall>s. s \<notin> set (sq # rest) \<longrightarrow> unack_packets st' s = unack_packets st s"
  proof (intro allI impI)
    fix s assume "s \<notin> set (sq # rest)"
    then have "s \<notin> set rest" "s \<noteq> sq" by auto
    with ih(8) show "unack_packets st' s = unack_packets st s"
      unfolding s3(6) by simp
  qed
  have fresh: "\<forall>s\<in>set (sq # rest). \<exists>t. unack_packets st' s = Some t \<and> clock st < t \<and> t < clock st'"
  proof
    fix s assume s: "s \<in> set (sq # rest)"
    show "\<exists>t. unack_packets st' s = Some t \<and> clock st < t \<and> t < clock st'"
    proof (cases "s \<in> set rest")
      case True
      with ih(9) obtain t where "unack_packets st' s = Some t" "clock ?st3 < t" "t < clock st'"
        by blast
      then show ?thesis unfolding s3(4) by auto
    next
      case False
      with s have "s = sq" by simp
      with False ih(8) have "unack_packets st' s = Some (Suc (clock st))"
        unfolding s3(6) by simp
      moreover have "Suc (clock st) < clock st'"
        using ih(5) unfolding s3(4) by simp
      ultimately show ?thesis by simp
    qed
  qed
  show ?case
    using run ih(2,3,4) s3(1,2,3) clk snt pk keep fresh
    by (intro exI [of _ st'] exI [of _ "p # ps"]) simp
qed

lemma process_timeout_props:
  assumes "\<forall>s\<in>set (window st). 1 \<le> s \<and> s \<le> 65535"
  shows "\<exists>st' ps. process_timeout st = Inr st'
           \<and> window st' = window st \<and> seq_num st' = seq_num st
           \<and> contents (src_file st') = contents (src_file st)
           \<and> \<not> retransmit st'
           \<and> sent st' = sent st @ ps
           \<and> list_all2 (\<lambda>p s. data_packet (contents (src_file st)) s = Inr p) ps (window st)
           \<and> (\<forall>s. s \<notin> set (window st) \<longrightarrow> unack_packets st' s = unack_packets st s)
           \<and> (\<forall>s\<in>set (window st).
                 \<exists>t. unack_packets st' s = Some t \<and> clock st < t \<and> t < clock st')"
proof -
  let ?st1 = "st\<lparr>clock := Suc (clock st), log := log st @ [RTO (clock st)]\<rparr>"
  have pre: "\<forall>s\<in>set (window ?st1). 1 \<le> s \<and> s \<le> 65535 \<and> s \<in> set (window ?st1)"
    using assms by simp
  from retransmit_window_props [OF pre] obtain st2 ps where
    r: "retransmit_window (window ?st1) ?st1 = Inr st2"
       "window st2 = window ?st1" "seq_num st2 = seq_num ?st1"
       "contents (src_file st2) = contents (src_file ?st1)"
       "sent st2 = sent ?st1 @ ps"
       "list_all2 (\<lambda>p s. data_packet (contents (src_file ?st1)) s = Inr p) ps (window ?st1)"
       "\<forall>s. s \<notin> set (window ?st1) \<longrightarrow> unack_packets st2 s = unack_packets ?st1 s"
       "\<forall>s\<in>set (window ?st1). \<exists>t. unack_packets st2 s = Some t \<and> clock ?st1 < t \<and> t < clock st2"
    by blast
  let ?st' = "st2\<lparr>retransmit := False\<rparr>"
  have run: "process_timeout st = Inr ?st'"
    using r(1) by (simp add: process_timeout_def Let_def)
  have fresh: "\<forall>s\<in>set (window st).
      \<exists>t. unack_packets ?st' s = Some t \<and> clock st < t \<and> t < clock ?st'"
  proof
    fix s assume "s \<in> set (window st)"
    with r(8) obtain t where "unack_packets st2 s = Some t" "clock ?st1 < t" "t < clock st2"
      by auto
    then show "\<exists>t. unack_packets ?st' s = Some t \<and> clock st < t \<and> t < clock ?st'"
      by auto
  qed
  show ?thesis
    using run r(2-7) fresh
    by (intro exI [of _ ?st'] exI [of _ ps]) simp
qed

lemma sender_inv_timeout:
  assumes inv: "sender_inv W c st" and t: "process_timeout st = Inr st'"
  shows "sender_inv W c st'"
proof -
  have "\<forall>s\<in>set (window st). 1 \<le> s \<and> s \<le> 65535"
    using inv by (simp add: sender_inv_def)
  from process_timeout_props [OF this] t obtain ps where
    "window st' = window st" "seq_num st' = seq_num st"
    "contents (src_file st') = contents (src_file st)" "\<not> retransmit st'"
    "sent st' = sent st @ ps"
    by auto
  with inv show ?thesis
    by (auto simp: sender_inv_def)
qed

lemma process_response_ack:
  assumes "parsePacket d = Inr (x, A, f, p)" and "f AND FLAGS_ACK \<noteq> 0"
  shows "process_response W st d =
           fill_window W (st\<lparr>clock := Suc (clock st),
                              log := log st @ [AckReceived (clock st) A],
                              window := filter (\<lambda>s. A < s) (window st),
                              unack_packets := (\<lambda>s. if A < s then unack_packets st s else None)\<rparr>)"
  using assms by (simp add: process_response_def Let_def cong: if_cong)

lemma process_response_other:
  assumes "parsePacket d = Inr (x, A, f, p)" and "f AND FLAGS_ACK = 0"
  shows "process_response W st d = Inr st"
  using assms by (simp add: process_response_def)

lemma sender_inv_filter:
  assumes "sender_inv W c st"
  shows "sender_inv W c (st\<lparr>clock := k, log := l,
                            window := filter (\<lambda>s. A < s) (window st),
                            unack_packets := u\<rparr>)"
proof -
  have "int (length (filter (\<lambda>s. A < s) (window st))) \<le> int (length (window st))"
    by simp
  moreover have "int (length (window st)) \<le> max W 0"
    using assms by (simp add: sender_inv_def)
  ultimately have "int (length (filter (\<lambda>s. A < s) (window st))) \<le> max W 0"
    by (rule order_trans)
  with assms show ?thesis
    by (simp add: sender_inv_def)
qed

lemma sender_inv_response:
  assumes inv: "sender_inv W c st" and r: "process_response W st d = Inr st'"
  shows "sender_inv W c st'"
proof (cases "parsePacket d")
  case (Inl e)
  with r show ?thesis by (simp add: process_response_def)
next
  case (Inr q)
  obtain x A f p where q: "q = (x, A, f, p)" by (cases q) auto
  show ?thesis
  proof (cases "f AND FLAGS_ACK = 0")
    case True
    with r Inr q inv show ?thesis by (simp add: process_response_other)
  next
    case False
    from r show ?thesis
      unfolding process_response_ack [OF Inr [unfolded q] False]
      by (rule sender_inv_fill [OF sender_inv_filter [OF inv]])
  qed
qed

lemma sender_inv_recv:
  assumes "sender_inv W c st" and "loop_recv W st rx = Inr st'"
  shows "sender_inv W c st'"
proof (cases rx)
  case (Inl e)
  with assms show ?thesis
    by (auto simp: loop_recv_def split: if_splits intro: sender_inv_timeout)
next
  case (Inr d)
  with assms show ?thesis
    by (auto simp: loop_recv_def intro: sender_inv_response)
qed

lemma sender_inv_log: "sender_inv W c (st\<lparr>log := l\<rparr>) = sender_inv W c st"
  by (simp add: sender_inv_def)

lemma sender_inv_head:
  assumes "sender_inv W c st" and "loop_head W st = Inr r"
  shows "sender_inv W c (state_of r)"
proof (cases "fill_window W st")
  case (Inl e)
  with assms(2) show ?thesis by (simp add: loop_head_def)
next
  case (Inr st1)
  from sender_inv_fill [OF assms(1) Inr] have "sender_inv W c st1" .
  with assms(2) Inr show ?thesis
    by (auto simp: loop_head_def sender_inv_log split: if_splits)
qed

lemma sender_inv_loop:
  assumes "sender_inv W c st" and "data_loop W st rxs = Inr r"
  shows "sender_inv W c (state_of r)"
  using assms
proof (induction rxs arbitrary: st)
  case Nil
  then show ?case by (simp add: sender_inv_head)
next
  case (Cons rx rest)
  show ?case
  proof (cases "loop_head W st")
    case (Inl e)
    with Cons.prems(2) show ?thesis by simp
  next
    case (Inr h)
    note hinv = sender_inv_head [OF Cons.prems(1) Inr]
    show ?thesis
    proof (cases h)
      case (Break st1)
      with Inr Cons.prems(2) hinv show ?thesis by auto
    next
      case (Continue st1)
      show ?thesis
      proof (cases "loop_recv W st1 rx")
        case (Inl e)
        with Inr Continue Cons.prems(2) show ?thesis by simp
      next
        case st2: (Inr st2)
        from hinv Continue have "sender_inv W c st1" by simp
        from sender_inv_recv [OF this st2] have "sender_inv W c st2" .
        moreover have "data_loop W st2 rest = Inr r"
          using Inr Continue st2 Cons.prems(2) by simp
        ultimately show ?thesis by (rule Cons.IH)
      qed
    qed
  qed
qed

lemma reachable_inv:
  "data_loop W (sender_init c) rxs = Inr r \<Longrightarrow> sender_inv W c (state_of r)"
  by (rule sender_inv_loop [OF sender_inv_init])




text \<open>The sender's socket has a timeout, so its \<^verbatim>\<open>recvfrom\<close> always returns or raises.\<close>

lemma sender_recvfrom_returns: "\<exists>rx. recvfrom sendFile_sock MAX_PACKET_SIZE ev = Some rx"
  by (cases ev) (simp_all add: recvfrom_def sendFile_sock_def settimeout_def)

subsection \<open>Runs of the data loop: what removes a member, what an acknowledgment leaves\<close>

lemma data_loop_append:
  "data_loop W st (pre @ rx # post) =
     (case data_loop W st pre of
        Inl e \<Rightarrow> Inl e
      | Inr (Break s) \<Rightarrow> Inr (Break s)
      | Inr (Continue st1) \<Rightarrow>
          (case loop_recv W st1 rx of
             Inl e \<Rightarrow> Inl e
           | Inr st2 \<Rightarrow> data_loop W st2 post))"
proof (induction pre arbitrary: st)
  case Nil
  show ?case by (simp split: sum.splits control.splits)
next
  case (Cons a pre)
  show ?case by (simp add: Cons.IH split: sum.splits control.splits)
qed

lemma acked_above_fill:
  assumes a: "acked_above A W c st" and fill: "fill_window W st = Inr st'"
  shows "acked_above A W c st'"
proof -
  from a have inv: "sender_inv W c st" and lt: "A < seq_num st"
    and ab: "\<forall>s\<in>set (window st). A < s"
    by (simp_all add: acked_above_def)
  have pre: "\<forall>s\<in>set (window st). s < seq_num st"
    using inv by (simp add: sender_inv_def)
  note str = fill_window_structure [OF fill pre]
  have "\<forall>s\<in>set (window st'). A < s"
    using str ab lt by auto
  moreover have "A < seq_num st'" using str lt by simp
  ultimately show ?thesis
    using sender_inv_fill [OF inv fill] by (simp add: acked_above_def)
qed

lemma acked_above_head:
  assumes "acked_above A W c st" and "loop_head W st = Inr r"
  shows "acked_above A W c (state_of r)"
proof (cases "fill_window W st")
  case (Inl e)
  with assms(2) show ?thesis by (simp add: loop_head_def)
next
  case (Inr st1)
  from acked_above_fill [OF assms(1) Inr] have "acked_above A W c st1" .
  with assms(2) Inr show ?thesis
    by (auto simp: loop_head_def acked_above_def sender_inv_log split: if_splits)
qed

lemma loop_recv_no_ack:
  assumes inv: "sender_inv W c st" and n: "\<not> is_ack rx" and r: "loop_recv W st rx = Inr st'"
  shows "window st' = window st \<and> seq_num st' = seq_num st"
proof (cases rx)
  case (Inl e)
  with r have t: "process_timeout st = Inr st'"
    by (simp add: loop_recv_def split: if_splits)
  have "\<forall>s\<in>set (window st). 1 \<le> s \<and> s \<le> 65535"
    using inv by (simp add: sender_inv_def)
  from process_timeout_props [OF this] t show ?thesis by auto
next
  case (Inr d)
  with r have p: "process_response W st d = Inr st'"
    by (simp add: loop_recv_def)
  show ?thesis
  proof (cases "parsePacket d")
    case (Inl e)
    with p show ?thesis by (simp add: process_response_def)
  next
    case q: (Inr q)
    obtain x A f pl where "q = (x, A, f, pl)" by (cases q) auto
    with q n Inr have "parsePacket d = Inr (x, A, f, pl)" "f AND FLAGS_ACK = 0"
      by (simp_all add: is_ack_def)
    from process_response_other [OF this] p show ?thesis by simp
  qed
qed

lemma acked_above_recv:
  assumes a: "acked_above A W c st" and n: "\<not> is_ack rx"
    and r: "loop_recv W st rx = Inr st'"
  shows "acked_above A W c st'"
proof -
  from a have inv: "sender_inv W c st" by (simp add: acked_above_def)
  from loop_recv_no_ack [OF inv n r] sender_inv_recv [OF inv r] a
  show ?thesis by (simp add: acked_above_def)
qed

lemma acked_above_loop:
  assumes "acked_above A W c st" and "\<forall>rx\<in>set post. \<not> is_ack rx"
    and "data_loop W st post = Inr r"
  shows "acked_above A W c (state_of r)"
  using assms
proof (induction post arbitrary: st)
  case Nil
  then show ?case by (simp add: acked_above_head)
next
  case (Cons rx rest)
  show ?case
  proof (cases "loop_head W st")
    case (Inl e)
    with Cons.prems(3) show ?thesis by simp
  next
    case (Inr h)
    note ha = acked_above_head [OF Cons.prems(1) Inr]
    show ?thesis
    proof (cases h)
      case (Break st1)
      with Inr Cons.prems(3) ha show ?thesis by auto
    next
      case (Continue st1)
      show ?thesis
      proof (cases "loop_recv W st1 rx")
        case (Inl e)
        with Inr Continue Cons.prems(3) show ?thesis by simp
      next
        case st2: (Inr st2)
        from ha Continue have "acked_above A W c st1" by simp
        moreover have "\<not> is_ack rx" using Cons.prems(2) by simp
        ultimately have "acked_above A W c st2" using st2 by (rule acked_above_recv)
        moreover have "\<forall>rx\<in>set rest. \<not> is_ack rx" using Cons.prems(2) by simp
        moreover have "data_loop W st2 rest = Inr r"
          using Inr Continue st2 Cons.prems(3) by simp
        ultimately show ?thesis by (rule Cons.IH)
      qed
    qed
  qed
qed

lemma acked_above_ack:
  assumes inv: "sender_inv W c st" and lt: "A < seq_num st"
    and parse: "parsePacket d = Inr (x, A, f, p)" and ack: "f AND FLAGS_ACK \<noteq> 0"
    and r: "loop_recv W st (Inr d) = Inr st'"
  shows "acked_above A W c st'"
proof -
  let ?f = "st\<lparr>clock := Suc (clock st),
                log := log st @ [AckReceived (clock st) A],
                window := filter (\<lambda>s. A < s) (window st),
                unack_packets := (\<lambda>s. if A < s then unack_packets st s else None)\<rparr>"
  have "acked_above A W c ?f"
    using sender_inv_filter [OF inv] lt by (simp add: acked_above_def)
  moreover have "fill_window W ?f = Inr st'"
    using r process_response_ack [OF parse ack] by (simp add: loop_recv_def)
  ultimately show ?thesis by (rule acked_above_fill)
qed

lemma loop_recv_removal:
  assumes inv: "sender_inv W c st" and r: "loop_recv W st rx = Inr st'"
    and s: "s \<in> set (window st)" "s \<notin> set (window st')"
  shows "\<exists>d x A f p. rx = Inr d \<and> parsePacket d = Inr (x, A, f, p)
           \<and> f AND FLAGS_ACK \<noteq> 0 \<and> s \<le> A"
proof (cases "is_ack rx")
  case False
  from loop_recv_no_ack [OF inv False r] s show ?thesis by simp
next
  case True
  then obtain d x A f p where d: "rx = Inr d" "parsePacket d = Inr (x, A, f, p)"
    "f AND FLAGS_ACK \<noteq> 0"
    by (auto simp: is_ack_def split: sum.splits)
  let ?f = "st\<lparr>clock := Suc (clock st),
                log := log st @ [AckReceived (clock st) A],
                window := filter (\<lambda>s. A < s) (window st),
                unack_packets := (\<lambda>s. if A < s then unack_packets st s else None)\<rparr>"
  have fill: "fill_window W ?f = Inr st'"
    using r d(1) process_response_ack [OF d(2,3)] by (simp add: loop_recv_def)
  have pre: "\<forall>s\<in>set (window ?f). s < seq_num ?f"
    using inv by (simp add: sender_inv_def)
  from fill_window_structure [OF fill pre]
  have "set (filter (\<lambda>s. A < s) (window st)) \<subseteq> set (window st')"
    by auto
  with s have "s \<le> A" by auto
  with d show ?thesis by blast
qed

lemma loop_head_keeps:
  assumes inv: "sender_inv W c st" and h: "loop_head W st = Inr r"
  shows "set (window st) \<subseteq> set (window (state_of r))"
proof (cases "fill_window W st")
  case (Inl e)
  with h show ?thesis by (simp add: loop_head_def)
next
  case (Inr st1)
  have pre: "\<forall>s\<in>set (window st). s < seq_num st"
    using inv by (simp add: sender_inv_def)
  from fill_window_structure [OF Inr pre] have "set (window st) \<subseteq> set (window st1)"
    by auto
  with h Inr show ?thesis
    by (auto simp: loop_head_def split: if_splits)
qed

section \<open>Properties of the receiver and of the handshake\<close>

lemma unpack_H_range: "0 \<le> unpack_H lo hi \<and> unpack_H lo hi \<le> 65535"
proof -
  have "uint lo < 2 ^ 8" "uint hi < 2 ^ 8"
    using uint_bounded [of lo] uint_bounded [of hi] by simp_all
  then have "uint lo \<le> 255" "uint hi \<le> 255" by simp_all
  moreover have "0 \<le> uint lo" "0 \<le> uint hi" by simp_all
  ultimately show ?thesis
    unfolding unpack_H_def by linarith
qed

lemma parsePacket_range:
  assumes "parsePacket d = Inr (s, a, f, p)"
  shows "0 \<le> s \<and> s \<le> 65535 \<and> 0 \<le> a \<and> a \<le> 65535 \<and> 0 \<le> f \<and> f \<le> 65535"
  using assms unpack_H_range
  by (auto simp: parsePacket_def unpack_HHH_def Let_def split: if_splits)

lemma unpack_I_range:
  assumes "unpack_I b = Inr n"
  shows "0 \<le> n \<and> n \<le> 4294967295"
proof -
  have b: "\<And>w :: byte. 0 \<le> uint w \<and> uint w \<le> 255"
  proof -
    fix w :: byte
    have "uint w < 2 ^ 8" using uint_bounded [of w] by simp
    then show "0 \<le> uint w \<and> uint w \<le> 255" by simp
  qed
  from assms have n: "n = uint (b ! 0) + 256 * uint (b ! 1) + 65536 * uint (b ! 2)
      + 16777216 * uint (b ! 3)"
    by (auto simp: unpack_I_def split: if_splits)
  show ?thesis
    unfolding n using b [of "b ! 0"] b [of "b ! 1"] b [of "b ! 2"] b [of "b ! 3"]
    by linarith
qed

lemma parseSynPacket_range:
  assumes "parseSynPacket d = Inr (s, a, f, n)"
  shows "0 \<le> s \<and> s \<le> 65535 \<and> 0 \<le> a \<and> a \<le> 65535 \<and> 0 \<le> f \<and> f \<le> 65535
       \<and> 0 \<le> n \<and> n \<le> 4294967295"
proof -
  from assms obtain h where h: "unpack_HHH (take HEADER_SIZE d) = Inr h"
    by (auto simp: parseSynPacket_def Let_def split: sum.splits)
  from assms h have n: "unpack_I (take 4 (drop HEADER_SIZE d)) = Inr n" and hh: "h = (s, a, f)"
    by (auto simp: parseSynPacket_def Let_def split: sum.splits if_splits prod.splits)
  from h hh unpack_H_range
  have "0 \<le> s \<and> s \<le> 65535 \<and> 0 \<le> a \<and> a \<le> 65535 \<and> 0 \<le> f \<and> f \<le> 65535"
    by (auto simp: unpack_HHH_def split: if_splits)
  with unpack_I_range [OF n] show ?thesis by simp
qed

lemma ack_packet_parse:
  assumes "0 \<le> s" "s \<le> 65535"
  shows "\<exists>pkt. createPacket 0 s FLAGS_ACK [] = Inr pkt
           \<and> parsePacket pkt = Inr (0, s, FLAGS_ACK, [])"
  using assms by (intro parse_createPacket) (simp_all add: FLAGS_ACK_def)

lemma fin_ack_packet_parse:
  assumes "0 \<le> t" "t < 65535"
  shows "\<exists>pkt. createPacket (t + 1) 0 (FLAGS_ACK OR FLAGS_FIN) [] = Inr pkt
           \<and> parsePacket pkt = Inr (t + 1, 0, FLAGS_ACK OR FLAGS_FIN, [])"
  using assms by (intro parse_createPacket) (simp_all add: FLAGS_ACK_def FLAGS_FIN_def)

lemma syn_ack_packet_parse:
  assumes "0 \<le> s" "s < 65535" "0 \<le> n" "n \<le> 4294967295"
  shows "\<exists>pkt. createSynPacket (s + 1) 0 (FLAGS_SYN OR FLAGS_ACK) n = Inr pkt
           \<and> parseSynPacket pkt = Inr (s + 1, 0, FLAGS_SYN OR FLAGS_ACK, n)"
  using assms by (intro parse_createSynPacket) (simp_all add: FLAGS_ACK_def FLAGS_SYN_def)

lemma fin_check_no_fin: "r_flags st AND FLAGS_FIN = 0 \<Longrightarrow> fin_check st = Inr (Continue st)"
  by (simp add: fin_check_def)

section \<open>Claims about the codec\<close>

text \<open>
  C5. Framing round-trips. For sequence number, acknowledgment number and flags
  in the range of an unsigned 16-bit field and any payload (so in particular
  any payload of at most 994 bytes), \<open>createPacket\<close> succeeds and
  \<open>parsePacket\<close> of its result gives back exactly the four arguments; for a
  file size in the range of an unsigned 32-bit field the same holds of
  \<open>createSynPacket\<close> and \<open>parseSynPacket\<close>.
\<close>

theorem framing_round_trip:
  assumes "0 \<le> s" "s \<le> 65535" "0 \<le> a" "a \<le> 65535" "0 \<le> f" "f \<le> 65535"
    and "0 \<le> n" "n \<le> 4294967295"
  shows "(\<exists>pkt. createPacket s a f payload = Inr pkt
             \<and> parsePacket pkt = Inr (s, a, f, payload))
       \<and> (\<exists>pkt. createSynPacket s a f n = Inr pkt
             \<and> parseSynPacket pkt = Inr (s, a, f, n))"
  using parse_createPacket [OF assms(1-6)] parse_createSynPacket [OF assms]
  by blast

theorem framing_round_trip_witness:
  "(\<exists>pkt. createPacket 5 4 2 [1, 2, 3] = Inr pkt
       \<and> parsePacket pkt = Inr (5, 4, 2, [1, 2, 3]))
   \<and> (\<exists>pkt. createSynPacket 65535 0 1 3000 = Inr pkt
       \<and> parseSynPacket pkt = Inr (65535, 0, 1, 3000))"
proof -
  have a: "\<exists>pkt. createPacket 5 4 2 [1, 2, 3] = Inr pkt
              \<and> parsePacket pkt = Inr (5, 4, 2, [1, 2, 3])"
    using framing_round_trip [of 5 4 2 0 "[1, 2, 3]"] by simp
  have b: "\<exists>pkt. createSynPacket 65535 0 1 3000 = Inr pkt
              \<and> parseSynPacket pkt = Inr (65535, 0, 1, 3000)"
    using framing_round_trip [of 65535 0 1 3000 "[]"] by simp
  from a b show ?thesis by blast
qed

text \<open>
  C9. Decoding fails on short input, with distinct error kinds. The spec's
  \<open>MalformedHeader\<close> is the \<^verbatim>\<open>struct.error\<close> that unpacking a header of fewer
  than 6 bytes raises, its \<open>IncompleteFileSize\<close> is the \<^verbatim>\<open>ValueError\<close> of
  \<open>parseSynPacket\<close>. A buffer shorter than 6 bytes makes both decoders fail with
  \<open>StructError\<close>; a buffer of 6 to 9 bytes makes \<open>parseSynPacket\<close> fail with
  \<open>ValueError\<close>, a different error; \<open>parsePacket\<close> succeeds on every buffer of
  at least 6 bytes and \<open>parseSynPacket\<close> on every buffer of at least 10.
\<close>

theorem decode_short_input:
  "(length b < 6 \<longrightarrow> parsePacket b = Inl StructError \<and> parseSynPacket b = Inl StructError)
   \<and> (6 \<le> length b \<and> length b < 10 \<longrightarrow> parseSynPacket b = Inl ValueError)
   \<and> StructError \<noteq> ValueError
   \<and> (6 \<le> length b \<longrightarrow> (\<exists>r. parsePacket b = Inr r))
   \<and> (10 \<le> length b \<longrightarrow> (\<exists>r. parseSynPacket b = Inr r))"
  using parsePacket_short [of b] parseSynPacket_short [of b] parseSynPacket_mid [of b]
    parsePacket_long [of b] parseSynPacket_long [of b]
  by simp

theorem decode_short_input_witness:
  "parsePacket [1, 0, 0] = Inl StructError
   \<and> parseSynPacket [1, 0, 0] = Inl StructError
   \<and> parseSynPacket [0, 0, 0, 0, 1, 0, 9, 9] = Inl ValueError
   \<and> (\<exists>r. parsePacket [0, 0, 0, 0, 1, 0, 9, 9] = Inr r)
   \<and> (\<exists>r. parseSynPacket [0, 0, 0, 0, 1, 0, 184, 11, 0, 0] = Inr r)"
  using decode_short_input [of "[1, 0, 0]"]
    decode_short_input [of "[0, 0, 0, 0, 1, 0, 9, 9]"]
    decode_short_input [of "[0, 0, 0, 0, 1, 0, 184, 11, 0, 0]"]
  by simp

section \<open>Claims about the sender\<close>

text \<open>
  C10. Probing past the end of the file. For a sequence number that is not in
  the window and whose offset \<open>(seq - 1) * 994\<close> is at or beyond the end of the
  source file, \<open>sendPacket\<close> returns \<open>False\<close> and the state it leaves differs
  from the one it got in the read position of the file only: nothing is sent,
  and the window, the send-time map, the clock and the log are as before.
\<close>

theorem sendPacket_end_of_file:
  assumes "sq \<notin> set (window st)"
    and "int (length (contents (src_file st))) \<le> int DATA_SIZE * (sq - 1)"
  shows "sendPacket sq st re =
           Inr (False, st\<lparr>src_file := (src_file st)\<lparr>pos := nat (int DATA_SIZE * (sq - 1))\<rparr>\<rparr>)"
proof -
  have "0 \<le> int DATA_SIZE * (sq - 1)"
    using assms(2) by linarith
  then have sq: "1 \<le> sq"
    by (simp add: DATA_SIZE_def)
  have "length (contents (src_file st)) \<le> nat (int DATA_SIZE * (sq - 1))"
    using assms(2) by linarith
  then have "chunk (contents (src_file st)) sq = []"
    by (simp add: chunk_def)
  with sq assms(1) show ?thesis
    by (simp add: sendPacket_def seek_read_eq)
qed

theorem sendPacket_end_of_file_witness:
  "5 \<notin> set (window (sender_init (replicate 3000 7)))
   \<and> int (length (contents (src_file (sender_init (replicate 3000 7))))) \<le> int DATA_SIZE * (5 - 1)
   \<and> sendPacket 5 (sender_init (replicate 3000 7)) False =
       Inr (False, (sender_init (replicate 3000 7))
                     \<lparr>src_file := \<lparr>contents = replicate 3000 7, pos = 3976\<rparr>\<rparr>)"
  using sendPacket_end_of_file [of 5 "sender_init (replicate 3000 7)" False]
  by (simp add: sender_init_def DATA_SIZE_def)

text \<open>
  C4. A receive timeout retransmits the whole window. In every state the data
  loop can be in when it waits for a datagram, a timeout is handled without an
  exception; the window afterwards is the window before; the datagrams sent
  are, in window order, one per member \<open>s\<close>, each the packet
  \<open>createPacket s 0 0\<close> of the 994 bytes read at offset \<open>(s - 1) * 994\<close>, and that
  same packet is among the datagrams sent before the timeout; every member's
  entry in the send-time map is a clock reading taken during the handling; the
  entries of other sequence numbers are untouched.
\<close>

theorem timeout_retransmits_window:
  assumes "data_loop W (sender_init c) rxs = Inr (Continue st)"
  shows "\<exists>st' ps. loop_recv W st (Inl SocketTimeout) = Inr st'
           \<and> window st' = window st
           \<and> sent st' = sent st @ ps
           \<and> list_all2 (\<lambda>p s. data_packet c s = Inr p) ps (window st)
           \<and> (\<forall>s\<in>set (window st).
                 (\<exists>p\<in>set (sent st). data_packet c s = Inr p)
                 \<and> (\<exists>t. unack_packets st' s = Some t \<and> clock st < t \<and> t < clock st'))
           \<and> (\<forall>s. s \<notin> set (window st) \<longrightarrow> unack_packets st' s = unack_packets st s)"
proof -
  from reachable_inv [OF assms] have inv: "sender_inv W c st" by simp
  then have rng: "\<forall>s\<in>set (window st). 1 \<le> s \<and> s \<le> 65535"
    and cst: "contents (src_file st) = c"
    and old: "\<forall>s\<in>set (window st). \<exists>p\<in>set (sent st). data_packet c s = Inr p"
    by (simp_all add: sender_inv_def)
  from process_timeout_props [OF rng] obtain st' ps where
    t: "process_timeout st = Inr st'" "window st' = window st" "sent st' = sent st @ ps"
       "list_all2 (\<lambda>p s. data_packet c s = Inr p) ps (window st)"
       "\<forall>s. s \<notin> set (window st) \<longrightarrow> unack_packets st' s = unack_packets st s"
       "\<forall>s\<in>set (window st). \<exists>t. unack_packets st' s = Some t \<and> clock st < t \<and> t < clock st'"
    unfolding cst by blast
  have "loop_recv W st (Inl SocketTimeout) = Inr st'"
    using t(1) by (simp add: loop_recv_def)
  with t(2-6) old show ?thesis
    by (intro exI [of _ st'] exI [of _ ps]) simp
qed

lemma run_three_chunks:
  "\<exists>st. data_loop 3 (sender_init (replicate 2000 7)) [] = Inr (Continue st)
        \<and> window st = [1, 2, 3]"
  by (simp add: loop_head_def fill_window.simps sender_init_def sendPacket_def seek_read_eq
      chunk_def transmit_def createPacket_eq DATA_SIZE_def)

theorem timeout_retransmits_window_witness:
  "\<exists>st st' ps. data_loop 3 (sender_init (replicate 2000 7)) [] = Inr (Continue st)
      \<and> window st = [1, 2, 3]
      \<and> loop_recv 3 st (Inl SocketTimeout) = Inr st'
      \<and> window st' = [1, 2, 3]
      \<and> sent st' = sent st @ ps
      \<and> list_all2 (\<lambda>p s. data_packet (replicate 2000 7) s = Inr p) ps [1, 2, 3]"
proof -
  from run_three_chunks obtain st where
    st: "data_loop 3 (sender_init (replicate 2000 7)) [] = Inr (Continue st)"
        "window st = [1, 2, 3]"
    by blast
  from timeout_retransmits_window [OF st(1)] st show ?thesis
    by auto
qed







text \<open>
  C2. The window invariant, as the code keeps it. In every run of the data
  loop from its initial state, whatever the sequence of datagrams, timeouts
  and socket errors that \<^verbatim>\<open>recvfrom\<close> delivers:
  \<^item> the window never has more than \<open>max W 0\<close> members (that is, at most \<open>W\<close>
    for a window size that is not negative), both where the loop waits for a
    datagram or has left, and right after a datagram or timeout is handled;
  \<^item> a member leaves the window only when a datagram with the ACK flag and an
    acknowledgment number at or above it is handled: a timeout, a datagram
    without the flag, an acknowledgment below the member and the refill at the
    head of the loop remove nothing;
  \<^item> after an acknowledgment \<open>A\<close> that was below the next unsent sequence
    number when it was handled, and until the next acknowledgment, every
    member of the window is above \<open>A\<close>.
  The code does not compare an acknowledgment number with what it has sent,
  so for an acknowledgment at or above the next sequence number the last
  part fails: the refill admits members that are not above it.
\<close>

theorem window_invariant:
  "(\<forall>rxs r. data_loop W (sender_init c) rxs = Inr r \<longrightarrow>
       int (length (window (state_of r))) \<le> max W 0)
   \<and> (\<forall>rxs st rx st'.
         data_loop W (sender_init c) rxs = Inr (Continue st) \<and> loop_recv W st rx = Inr st' \<longrightarrow>
           int (length (window st')) \<le> max W 0
         \<and> (\<forall>s\<in>set (window st). s \<notin> set (window st') \<longrightarrow>
               (\<exists>d x A f p. rx = Inr d \<and> parsePacket d = Inr (x, A, f, p)
                   \<and> f AND FLAGS_ACK \<noteq> 0 \<and> s \<le> A))
         \<and> (\<forall>r. loop_head W st' = Inr r \<longrightarrow>
               set (window st') \<subseteq> set (window (state_of r))))
   \<and> (\<forall>pre st d x A f p post r.
         data_loop W (sender_init c) pre = Inr (Continue st)
         \<and> parsePacket d = Inr (x, A, f, p) \<and> f AND FLAGS_ACK \<noteq> 0
         \<and> A < seq_num st
         \<and> (\<forall>rx\<in>set post. \<not> is_ack rx)
         \<and> data_loop W (sender_init c) (pre @ Inr d # post) = Inr r \<longrightarrow>
           (\<forall>s\<in>set (window (state_of r)). A < s))"
proof (intro conjI)
  show "\<forall>rxs r. data_loop W (sender_init c) rxs = Inr r \<longrightarrow>
       int (length (window (state_of r))) \<le> max W 0"
  proof (intro allI impI)
    fix rxs r
    assume "data_loop W (sender_init c) rxs = Inr r"
    from reachable_inv [OF this]
    show "int (length (window (state_of r))) \<le> max W 0"
      by (simp add: sender_inv_def)
  qed
next
  show "\<forall>rxs st rx st'.
         data_loop W (sender_init c) rxs = Inr (Continue st) \<and> loop_recv W st rx = Inr st' \<longrightarrow>
           int (length (window st')) \<le> max W 0
         \<and> (\<forall>s\<in>set (window st). s \<notin> set (window st') \<longrightarrow>
               (\<exists>d x A f p. rx = Inr d \<and> parsePacket d = Inr (x, A, f, p)
                   \<and> f AND FLAGS_ACK \<noteq> 0 \<and> s \<le> A))
         \<and> (\<forall>r. loop_head W st' = Inr r \<longrightarrow>
               set (window st') \<subseteq> set (window (state_of r)))"
  proof (intro allI impI)
  fix rxs st rx st'
  assume a: "data_loop W (sender_init c) rxs = Inr (Continue st) \<and> loop_recv W st rx = Inr st'"
  from reachable_inv [of W c rxs "Continue st"] a have inv: "sender_inv W c st"
    by simp
  from a have r: "loop_recv W st rx = Inr st'" by simp
  note inv' = sender_inv_recv [OF inv r]
  show "int (length (window st')) \<le> max W 0
      \<and> (\<forall>s\<in>set (window st). s \<notin> set (window st') \<longrightarrow>
            (\<exists>d x A f p. rx = Inr d \<and> parsePacket d = Inr (x, A, f, p)
                \<and> f AND FLAGS_ACK \<noteq> 0 \<and> s \<le> A))
      \<and> (\<forall>r. loop_head W st' = Inr r \<longrightarrow>
            set (window st') \<subseteq> set (window (state_of r)))"
  proof (intro conjI ballI allI impI)
    show "int (length (window st')) \<le> max W 0"
      using inv' by (simp add: sender_inv_def)
  next
    fix s assume "s \<in> set (window st)" "s \<notin> set (window st')"
    with inv r show "\<exists>d x A f p. rx = Inr d \<and> parsePacket d = Inr (x, A, f, p)
        \<and> f AND FLAGS_ACK \<noteq> 0 \<and> s \<le> A"
      by (rule loop_recv_removal)
  next
    fix r assume "loop_head W st' = Inr r"
    with inv' show "set (window st') \<subseteq> set (window (state_of r))"
      by (rule loop_head_keeps)
  qed
  qed
next
  show "\<forall>pre st d x A f p post r.
         data_loop W (sender_init c) pre = Inr (Continue st)
         \<and> parsePacket d = Inr (x, A, f, p) \<and> f AND FLAGS_ACK \<noteq> 0
         \<and> A < seq_num st
         \<and> (\<forall>rx\<in>set post. \<not> is_ack rx)
         \<and> data_loop W (sender_init c) (pre @ Inr d # post) = Inr r \<longrightarrow>
           (\<forall>s\<in>set (window (state_of r)). A < s)"
  proof (intro allI impI)
  fix pre st d x A f p post r
  assume a: "data_loop W (sender_init c) pre = Inr (Continue st)
         \<and> parsePacket d = Inr (x, A, f, p) \<and> f AND FLAGS_ACK \<noteq> 0
         \<and> A < seq_num st
         \<and> (\<forall>rx\<in>set post. \<not> is_ack rx)
         \<and> data_loop W (sender_init c) (pre @ Inr d # post) = Inr r"
  then have pre: "data_loop W (sender_init c) pre = Inr (Continue st)"
    and parse: "parsePacket d = Inr (x, A, f, p)" and ack: "f AND FLAGS_ACK \<noteq> 0"
    and lt: "A < seq_num st" and post: "\<forall>rx\<in>set post. \<not> is_ack rx"
    and run: "data_loop W (sender_init c) (pre @ Inr d # post) = Inr r"
    by simp_all
  from reachable_inv [OF pre] have inv: "sender_inv W c st" by simp
  from run pre obtain st2 where
    st2: "loop_recv W st (Inr d) = Inr st2" "data_loop W st2 post = Inr r"
    by (auto simp: data_loop_append split: sum.splits)
  from acked_above_ack [OF inv lt parse ack st2(1)] have "acked_above A W c st2" .
  from acked_above_loop [OF this post st2(2)]
  show "\<forall>s\<in>set (window (state_of r)). A < s"
    by (simp add: acked_above_def)
  qed
qed

lemma run_ack_then_timeout:
  "\<exists>st st' h r. data_loop 3 (sender_init (replicate 3000 0)) [] = Inr (Continue st)
      \<and> window st = [1, 2, 3] \<and> seq_num st = 4
      \<and> loop_recv 3 st (Inr [0, 0, 1, 0, 2, 0]) = Inr st'
      \<and> window st' = [2, 3, 4]
      \<and> loop_head 3 st' = Inr (Continue h)
      \<and> data_loop 3 (sender_init (replicate 3000 0))
            ([] @ Inr [0, 0, 1, 0, 2, 0] # [Inl SocketTimeout]) = Inr (Continue r)
      \<and> window r = [2, 3, 4]"
  by (simp add: loop_head_def loop_recv_def process_response_def process_timeout_def
      parsePacket_def unpack_HHH_def unpack_H_def HEADER_SIZE_def FLAGS_ACK_def
      fill_window.simps sender_init_def sendPacket_def seek_read_eq
      chunk_def transmit_def createPacket_eq DATA_SIZE_def Let_def)

theorem window_invariant_witness:
  "\<exists>st st' h r. data_loop 3 (sender_init (replicate 3000 0)) [] = Inr (Continue st)
      \<and> loop_recv 3 st (Inr [0, 0, 1, 0, 2, 0]) = Inr st'
      \<and> loop_head 3 st' = Inr (Continue h)
      \<and> set (window st') \<subseteq> set (window h)
      \<and> data_loop 3 (sender_init (replicate 3000 0))
            [Inr [0, 0, 1, 0, 2, 0], Inl SocketTimeout] = Inr (Continue r)
      \<and> int (length (window r)) \<le> 3
      \<and> 1 \<in> set (window st) \<and> 1 \<notin> set (window st')
      \<and> (\<exists>d x A f p. (Inr [0, 0, 1, 0, 2, 0] :: error + bytes) = Inr d
            \<and> parsePacket d = Inr (x, A, f, p) \<and> f AND FLAGS_ACK \<noteq> 0 \<and> 1 \<le> A)
      \<and> list_all (\<lambda>s. 1 < s) (window r)"
proof -
  let ?c = "replicate 3000 (0::byte)"
  let ?ack = "[0, 0, 1, 0, 2, 0] :: bytes"
  from run_ack_then_timeout obtain st st' h r where
    e: "data_loop 3 (sender_init ?c) [] = Inr (Continue st)"
       "window st = [1, 2, 3]" "seq_num st = 4"
       "loop_recv 3 st (Inr ?ack) = Inr st'"
       "window st' = [2, 3, 4]"
       "data_loop 3 (sender_init ?c) ([] @ Inr ?ack # [Inl SocketTimeout]) = Inr (Continue r)"
       "loop_head 3 st' = Inr (Continue h)"
    by blast
  note inst = window_invariant [of 3 ?c]
  have parse: "parsePacket ?ack = Inr (0, 1, 2, [])"
    by (simp add: parsePacket_def unpack_HHH_def unpack_H_def HEADER_SIZE_def)
  have ack: "(2::int) AND FLAGS_ACK \<noteq> 0"
    by (simp add: FLAGS_ACK_def)
  have quiet: "\<forall>rx\<in>set [Inl SocketTimeout :: error + bytes]. \<not> is_ack rx"
    by (simp add: is_ack_def)
  have lt: "1 < seq_num st" using e(3) by simp
  from inst e(6) have "int (length (window (state_of (Continue r)))) \<le> max 3 0"
    by blast
  then have bound: "int (length (window r)) \<le> 3" by simp
  have mem: "1 \<in> set (window st)" "1 \<notin> set (window st')"
    using e(2,5) by simp_all
  from inst e(1,4) have "\<forall>s\<in>set (window st). s \<notin> set (window st') \<longrightarrow>
      (\<exists>d x A f p. (Inr ?ack :: error + bytes) = Inr d \<and> parsePacket d = Inr (x, A, f, p)
          \<and> f AND FLAGS_ACK \<noteq> 0 \<and> s \<le> A)"
    by blast
  with mem have why: "\<exists>d x A f p. (Inr ?ack :: error + bytes) = Inr d
      \<and> parsePacket d = Inr (x, A, f, p) \<and> f AND FLAGS_ACK \<noteq> 0 \<and> 1 \<le> A"
    by blast
  from inst e(1) parse ack lt quiet e(6)
  have "\<forall>s\<in>set (window (state_of (Continue r))). 1 < s"
    by blast
  then have above: "list_all (\<lambda>s. 1 < s) (window r)"
    by (simp add: list_all_iff)
  from inst e(1,4,7) have "set (window st') \<subseteq> set (window (state_of (Continue h)))"
    by blast
  then have grows: "set (window st') \<subseteq> set (window h)" by simp
  from e(1,4,6,7) bound mem why above grows show ?thesis
    by auto
qed

text \<open>
  The claim as the spec states it, every member above the number of the most
  recent acknowledgment, fails on an acknowledgment the sender never sent a
  packet for: with a file of four chunks and a window of three, the first
  datagram acknowledging 10 empties the window, and the refill admits 4.
\<close>

theorem window_invariant_counterexample:
  "\<exists>st. data_loop 3 (sender_init (replicate 3000 0)) ([] @ Inr [0, 0, 10, 0, 2, 0] # [])
           = Inr (Continue st)
      \<and> parsePacket [0, 0, 10, 0, 2, 0] = Inr (0, 10, 2, [])
      \<and> (2::int) AND FLAGS_ACK \<noteq> 0
      \<and> window st = [4]
      \<and> \<not> (\<forall>s\<in>set (window st). 10 < s)"
  by (simp add: loop_head_def loop_recv_def process_response_def
      parsePacket_def unpack_HHH_def unpack_H_def HEADER_SIZE_def FLAGS_ACK_def
      fill_window.simps sender_init_def sendPacket_def seek_read_eq
      chunk_def transmit_def createPacket_eq DATA_SIZE_def Let_def)

section \<open>Claims about the receiver\<close>

text \<open>
  C3. Admission in the data phase is go-back-N, for every data packet that the
  one-shot discard hook does not take. Let a datagram parse as a packet with
  sequence number \<open>s\<close> and payload \<open>p\<close>. If it has no FIN flag (a data packet)
  and \<open>s\<close> is not the pending discard number, the iteration ends without an
  exception and the loop goes on; if \<open>s\<close> is the expected sequence number,
  exactly one datagram was sent, which parses as sequence 0, acknowledgment
  \<open>s\<close>, flags ACK and no payload, the payload is stored under \<open>s\<close>, and the
  expected number is one more; otherwise nothing was sent, nothing stored,
  and the expected number is the same. If \<open>s\<close> is the pending discard number,
  whatever the flags and whether or not \<open>s\<close> is expected, the packet is
  dropped: nothing is sent, nothing stored, the expected number is the same,
  the loop goes on, and no discard number is pending any more.
\<close>

theorem go_back_n_admission:
  assumes parse: "parsePacket dgram = Inr (s, a, f, p)"
  shows "(f AND FLAGS_FIN = 0 \<and> discard st \<noteq> Some s \<longrightarrow>
           (\<exists>st'. receive_iter st (Inr dgram) = Inr (Continue st')
              \<and> discard st' = discard st
              \<and> (if s = expected_seq_num st
                  then (\<exists>ack_packet. r_sent st' = r_sent st @ [ack_packet]
                           \<and> parsePacket ack_packet = Inr (0, s, FLAGS_ACK, []))
                       \<and> received_data st' = (received_data st)(s \<mapsto> p)
                       \<and> expected_seq_num st' = expected_seq_num st + 1
                  else r_sent st' = r_sent st
                       \<and> received_data st' = received_data st
                       \<and> expected_seq_num st' = expected_seq_num st)))
       \<and> (discard st = Some s \<longrightarrow>
           (\<exists>st'. receive_iter st (Inr dgram) = Inr (Continue st')
              \<and> discard st' = None
              \<and> r_sent st' = r_sent st
              \<and> received_data st' = received_data st
              \<and> expected_seq_num st' = expected_seq_num st))"
proof (intro conjI impI)
  assume h: "f AND FLAGS_FIN = 0 \<and> discard st \<noteq> Some s"
  then have data: "f AND FLAGS_FIN = 0" and keep: "discard st \<noteq> Some s" by simp_all
  show "\<exists>st'. receive_iter st (Inr dgram) = Inr (Continue st')
           \<and> discard st' = discard st
           \<and> (if s = expected_seq_num st
               then (\<exists>ack_packet. r_sent st' = r_sent st @ [ack_packet]
                        \<and> parsePacket ack_packet = Inr (0, s, FLAGS_ACK, []))
                    \<and> received_data st' = (received_data st)(s \<mapsto> p)
                    \<and> expected_seq_num st' = expected_seq_num st + 1
               else r_sent st' = r_sent st
                    \<and> received_data st' = received_data st
                    \<and> expected_seq_num st' = expected_seq_num st)"
  proof (cases "s = expected_seq_num st")
    case True
    from parsePacket_range [OF parse] have "0 \<le> s" "s \<le> 65535" by simp_all
    from ack_packet_parse [OF this] obtain pkt where
      pkt: "createPacket 0 s FLAGS_ACK [] = Inr pkt"
           "parsePacket pkt = Inr (0, s, FLAGS_ACK, [])"
      by blast
    let ?st' = "st\<lparr>r_clock := Suc (r_clock st), r_seq_num := s, r_ack_num := a, r_flags := f,
                   r_data := p,
                   r_log := r_log st @ [PacketReceived (r_clock st) s, SendingAck (r_clock st) s],
                   r_sent := r_sent st @ [pkt],
                   expected_seq_num := expected_seq_num st + 1,
                   received_data := (received_data st)(s \<mapsto> p)\<rparr>"
    have "receive_iter st (Inr dgram) = Inr (Continue ?st')"
      using parse data keep True pkt(1)
      by (simp add: receive_iter_def Let_def fin_check_def)
    with True pkt(2) show ?thesis
      by (intro exI [of _ ?st']) simp
  next
    case False
    let ?st' = "st\<lparr>r_clock := Suc (r_clock st), r_seq_num := s, r_ack_num := a, r_flags := f,
                   r_data := p, r_log := r_log st @ [OutOfOrder (r_clock st) s]\<rparr>"
    have "receive_iter st (Inr dgram) = Inr (Continue ?st')"
      using parse data keep False
      by (simp add: receive_iter_def Let_def fin_check_def)
    with False show ?thesis
      by (intro exI [of _ ?st']) simp
  qed
next
  assume d: "discard st = Some s"
  let ?st' = "st\<lparr>r_clock := Suc (r_clock st), r_seq_num := s, r_ack_num := a, r_flags := f,
                 r_data := p, discard := None\<rparr>"
  have "receive_iter st (Inr dgram) = Inr (Continue ?st')"
    using parse d by (simp add: receive_iter_def Let_def)
  then show "\<exists>st'. receive_iter st (Inr dgram) = Inr (Continue st')
      \<and> discard st' = None
      \<and> r_sent st' = r_sent st
      \<and> received_data st' = received_data st
      \<and> expected_seq_num st' = expected_seq_num st"
    by (intro exI [of _ ?st']) simp
qed

theorem go_back_n_admission_witness:
  "(\<exists>st'. receive_iter ((receiver_init None)\<lparr>expected_seq_num := 5\<rparr>)
              (Inr [7, 0, 0, 0, 0, 0, 9]) = Inr (Continue st')
        \<and> r_sent st' = [] \<and> received_data st' 7 = None \<and> expected_seq_num st' = 5)
   \<and> (\<exists>st' ack_packet. receive_iter ((receiver_init None)\<lparr>expected_seq_num := 5\<rparr>)
              (Inr [5, 0, 0, 0, 0, 0, 9]) = Inr (Continue st')
        \<and> r_sent st' = [ack_packet] \<and> parsePacket ack_packet = Inr (0, 5, FLAGS_ACK, [])
        \<and> received_data st' 5 = Some [9] \<and> expected_seq_num st' = 6)
   \<and> (\<exists>st'. receive_iter ((receiver_init (Some 7))\<lparr>expected_seq_num := 5\<rparr>)
              (Inr [7, 0, 0, 0, 0, 0, 9]) = Inr (Continue st')
        \<and> discard st' = None \<and> r_sent st' = [] \<and> received_data st' 7 = None
        \<and> expected_seq_num st' = 5)"
proof -
  let ?st = "(receiver_init None)\<lparr>expected_seq_num := 5\<rparr>"
  let ?sd = "(receiver_init (Some 7))\<lparr>expected_seq_num := 5\<rparr>"
  have p7: "parsePacket [7, 0, 0, 0, 0, 0, 9] = Inr (7, 0, 0, [9])"
    and p5: "parsePacket [5, 0, 0, 0, 0, 0, 9] = Inr (5, 0, 0, [9])"
    by (simp_all add: parsePacket_def unpack_HHH_def unpack_H_def HEADER_SIZE_def)
  have nofin: "(0::int) AND FLAGS_FIN = 0" by simp
  have k7: "discard ?st \<noteq> Some 7" and k5: "discard ?st \<noteq> Some 5"
    by (simp_all add: receiver_init_def)
  have e: "expected_seq_num ?st = 5" "r_sent ?st = []" "received_data ?st = Map.empty"
    by (simp_all add: receiver_init_def)
  have d: "discard ?sd = Some 7" "expected_seq_num ?sd = 5" "r_sent ?sd = []"
    "received_data ?sd = Map.empty"
    by (simp_all add: receiver_init_def)
  from go_back_n_admission [OF p7, of ?st] nofin k7 e
  have a: "\<exists>st'. receive_iter ?st (Inr [7, 0, 0, 0, 0, 0, 9]) = Inr (Continue st')
        \<and> r_sent st' = [] \<and> received_data st' 7 = None \<and> expected_seq_num st' = 5"
    by auto
  from go_back_n_admission [OF p5, of ?st] nofin k5 e
  have b: "\<exists>st' ack_packet. receive_iter ?st (Inr [5, 0, 0, 0, 0, 0, 9]) = Inr (Continue st')
        \<and> r_sent st' = [ack_packet] \<and> parsePacket ack_packet = Inr (0, 5, FLAGS_ACK, [])
        \<and> received_data st' 5 = Some [9] \<and> expected_seq_num st' = 6"
    by auto
  from go_back_n_admission [OF p7, of ?sd] d
  have c: "\<exists>st'. receive_iter ?sd (Inr [7, 0, 0, 0, 0, 0, 9]) = Inr (Continue st')
        \<and> discard st' = None \<and> r_sent st' = [] \<and> received_data st' 7 = None
        \<and> expected_seq_num st' = 5"
    by auto
  from a b c show ?thesis by blast
qed

text \<open>
  Without the condition on the discard number the claim fails: with discard
  number 5 pending and 5 expected, the data packet 5 is dropped, with no
  acknowledgment, nothing stored and 5 still expected.
\<close>

theorem go_back_n_admission_counterexample:
  "parsePacket [5, 0, 0, 0, 0, 0, 9] = Inr (5, 0, 0, [9])
   \<and> (0::int) AND FLAGS_FIN = 0
   \<and> expected_seq_num ((receiver_init (Some 5))\<lparr>expected_seq_num := 5\<rparr>) = 5
   \<and> (\<exists>st'. receive_iter ((receiver_init (Some 5))\<lparr>expected_seq_num := 5\<rparr>)
              (Inr [5, 0, 0, 0, 0, 0, 9]) = Inr (Continue st')
        \<and> r_sent st' = [] \<and> received_data st' 5 = None \<and> expected_seq_num st' = 5
        \<and> discard st' = None)"
  by (simp add: receive_iter_def receiver_init_def parsePacket_def unpack_HHH_def unpack_H_def
      HEADER_SIZE_def Let_def)

section \<open>Where the code departs from the claims\<close>

text \<open>
  C6. The claim: in the data phase every receive of the receiver waits a
  bounded time, and on expiry the receiver only logs. The code: the socket of
  \<^verbatim>\<open>receiveFile\<close> never gets a timeout (the sender's does, line 232), so on a
  silent network the receive of the data loop does not return, and the
  handler of \<^verbatim>\<open>socket.timeout\<close> at line 491 cannot run. The theorem evaluates
  both sockets on silence.
\<close>

theorem receiver_receive_unbounded:
  "sock_timeout receiveFile_sock = None
   \<and> receive_step st Silence = None
   \<and> sock_timeout sendFile_sock = Some 500
   \<and> recvfrom sendFile_sock MAX_PACKET_SIZE Silence = Some (Inl SocketTimeout)"
  by (simp add: receive_step_def recvfrom_def receiveFile_sock_def sendFile_sock_def
      socket_new_def settimeout_def)

text \<open>
  What the handler would do if a timeout were delivered: it logs and then
  checks the FIN flag of the last parsed packet. With no FIN flag pending the
  state differs in the clock and the log only.
\<close>

lemma receive_timeout_handler:
  "r_flags st AND FLAGS_FIN = 0 \<Longrightarrow>
     receive_iter st (Inl SocketTimeout)
       = Inr (Continue (st\<lparr>r_clock := Suc (r_clock st),
                            r_log := r_log st @ [RTO (r_clock st)]\<rparr>))"
  by (simp add: receive_iter_def Let_def fin_check_def)

text \<open>
  C7. The claim: the replies of the receiver carry the peer's sequence number
  plus one in the acknowledgment field. The code: in both replies the calls
  at lines 429 and 499 pass \<^verbatim>\<open>seq_num + 1\<close> as the sequence number and 0 as
  the acknowledgment number, while the acknowledgments built at lines 270
  and 478 pass the acknowledged number second. The theorem evaluates both
  replies: to a SYN with sequence number 0 and file size 3000, and to a FIN
  with sequence number 5; they parse with 1 and 6 in the sequence-number
  field and 0 in the acknowledgment field.
\<close>

theorem receiver_reply_fields:
  "parseSynPacket [0, 0, 0, 0, 1, 0, 184, 11, 0, 0] = Inr (0, 0, 1, 3000)
   \<and> (\<exists>reply st'. listen_iter (receiver_init None) (Inr [0, 0, 0, 0, 1, 0, 184, 11, 0, 0])
                     = Inr (Break st')
          \<and> r_sent st' = [reply]
          \<and> parseSynPacket reply = Inr (1, 0, 3, 3000))
   \<and> parsePacket [5, 0, 0, 0, 4, 0] = Inr (5, 0, 4, [])
   \<and> (\<exists>reply st'. receive_iter ((receiver_init None)\<lparr>expected_seq_num := 3\<rparr>)
                      (Inr [5, 0, 0, 0, 4, 0]) = Inr (Break st')
          \<and> r_sent st' = [reply]
          \<and> parsePacket reply = Inr (6, 0, 6, []))"
  by (simp add: listen_iter_def receive_iter_def fin_check_def receiver_init_def
      parsePacket_def parseSynPacket_def unpack_HHH_def unpack_I_def
      unpack_H_def HEADER_SIZE_def Let_def FLAGS_SYN_def FLAGS_ACK_def FLAGS_FIN_def
      createSynPacket_def createPacket_def pack_HHH_def pack_H_def pack_I_def)

text \<open>
  The same holds of every SYN and every FIN the receiver answers: the reply
  has the received sequence number plus one in its sequence-number field and
  0 in its acknowledgment field.
\<close>

lemma receiver_reply_shape:
  "(parseSynPacket dgram = Inr (s, a, f, n) \<and> f AND FLAGS_SYN \<noteq> 0 \<and> s < 65535 \<longrightarrow>
      (\<exists>reply st'. listen_iter st (Inr dgram) = Inr (Break st')
          \<and> r_sent st' = r_sent st @ [reply]
          \<and> parseSynPacket reply = Inr (s + 1, 0, FLAGS_SYN OR FLAGS_ACK, n)))
   \<and> (parsePacket dgram = Inr (t, a, f, p) \<and> f AND FLAGS_FIN \<noteq> 0 \<and> t < 65535
        \<and> discard st \<noteq> Some t \<longrightarrow>
      (\<exists>acks reply st'. receive_iter st (Inr dgram) = Inr (Break st')
          \<and> r_sent st' = r_sent st @ acks @ [reply]
          \<and> parsePacket reply = Inr (t + 1, 0, FLAGS_ACK OR FLAGS_FIN, [])
          \<and> (if t = expected_seq_num st
              then \<exists>ack_packet. acks = [ack_packet]
                     \<and> parsePacket ack_packet = Inr (0, t, FLAGS_ACK, [])
              else acks = [])))"
proof (intro conjI impI)
  assume h: "parseSynPacket dgram = Inr (s, a, f, n) \<and> f AND FLAGS_SYN \<noteq> 0 \<and> s < 65535"
  then have parse: "parseSynPacket dgram = Inr (s, a, f, n)" and syn: "f AND FLAGS_SYN \<noteq> 0"
    and s: "s < 65535" by simp_all
  from parseSynPacket_range [OF parse] have "0 \<le> s" "0 \<le> n" "n \<le> 4294967295"
    by simp_all
  from syn_ack_packet_parse [OF this(1) s this(2,3)] obtain pkt where
    pkt: "createSynPacket (s + 1) 0 (FLAGS_SYN OR FLAGS_ACK) n = Inr pkt"
         "parseSynPacket pkt = Inr (s + 1, 0, FLAGS_SYN OR FLAGS_ACK, n)"
    by blast
  let ?st' = "st\<lparr>r_data := dgram, r_seq_num := s, r_ack_num := a, r_flags := f,
                 r_file_size := n, r_sent := r_sent st @ [pkt],
                 r_log := r_log st @ [Message ''SYN packet is received'',
                                      Message ''SYN-ACK packet is sent'']\<rparr>"
  have "listen_iter st (Inr dgram) = Inr (Break ?st')"
    using parse syn pkt(1) by (simp add: listen_iter_def Let_def)
  with pkt(2) show "\<exists>reply st'. listen_iter st (Inr dgram) = Inr (Break st')
      \<and> r_sent st' = r_sent st @ [reply]
      \<and> parseSynPacket reply = Inr (s + 1, 0, FLAGS_SYN OR FLAGS_ACK, n)"
    by (intro exI [of _ pkt] exI [of _ ?st']) simp
next
  assume h: "parsePacket dgram = Inr (t, a, f, p) \<and> f AND FLAGS_FIN \<noteq> 0 \<and> t < 65535
      \<and> discard st \<noteq> Some t"
  then have parse: "parsePacket dgram = Inr (t, a, f, p)" and fin: "f AND FLAGS_FIN \<noteq> 0"
    and t: "t < 65535" and keep: "discard st \<noteq> Some t" by simp_all
  from parsePacket_range [OF parse] have t0: "0 \<le> t" and t1: "t \<le> 65535" by simp_all
  from fin_ack_packet_parse [OF t0 t] obtain fa where
    fa: "createPacket (t + 1) 0 (FLAGS_ACK OR FLAGS_FIN) [] = Inr fa"
        "parsePacket fa = Inr (t + 1, 0, FLAGS_ACK OR FLAGS_FIN, [])"
    by blast
  from ack_packet_parse [OF t0 t1] obtain ak where
    ak: "createPacket 0 t FLAGS_ACK [] = Inr ak" "parsePacket ak = Inr (0, t, FLAGS_ACK, [])"
    by blast
  show "\<exists>acks reply st'. receive_iter st (Inr dgram) = Inr (Break st')
      \<and> r_sent st' = r_sent st @ acks @ [reply]
      \<and> parsePacket reply = Inr (t + 1, 0, FLAGS_ACK OR FLAGS_FIN, [])
      \<and> (if t = expected_seq_num st
          then \<exists>ack_packet. acks = [ack_packet]
                 \<and> parsePacket ack_packet = Inr (0, t, FLAGS_ACK, [])
          else acks = [])"
  proof (cases "t = expected_seq_num st")
    case True
    let ?st' = "st\<lparr>r_clock := Suc (r_clock st), r_seq_num := t, r_ack_num := a, r_flags := f,
                   r_data := p,
                   r_log := r_log st @ [PacketReceived (r_clock st) t, SendingAck (r_clock st) t,
                                        Message ''FIN packet is received'',
                                        Message ''FIN-ACK packet is sent''],
                   r_sent := r_sent st @ [ak, fa],
                   expected_seq_num := expected_seq_num st + 1,
                   received_data := (received_data st)(t \<mapsto> p)\<rparr>"
    have "receive_iter st (Inr dgram) = Inr (Break ?st')"
      using parse fin keep True ak(1) fa(1)
      by (simp add: receive_iter_def Let_def fin_check_def)
    with True ak(2) fa(2) show ?thesis
      by (intro exI [of _ "[ak]"] exI [of _ fa] exI [of _ ?st']) simp
  next
    case False
    let ?st' = "st\<lparr>r_clock := Suc (r_clock st), r_seq_num := t, r_ack_num := a, r_flags := f,
                   r_data := p,
                   r_log := r_log st @ [OutOfOrder (r_clock st) t,
                                        Message ''FIN packet is received'',
                                        Message ''FIN-ACK packet is sent''],
                   r_sent := r_sent st @ [fa]\<rparr>"
    have "receive_iter st (Inr dgram) = Inr (Break ?st')"
      using parse fin keep False fa(1)
      by (simp add: receive_iter_def Let_def fin_check_def)
    with False fa(2) show ?thesis
      by (intro exI [of _ "[]"] exI [of _ fa] exI [of _ ?st']) simp
  qed
qed

text \<open>
  C8. The claim: while the sender waits for the SYN-ACK, a datagram without
  both flags is ignored, also one shorter than 10 bytes. The code: a control
  packet of 6 bytes with no flag makes \<open>parseSynPacket\<close> raise \<^verbatim>\<open>ValueError\<close>,
  an empty datagram \<^verbatim>\<open>struct.error\<close>, and neither is among the exceptions the
  loop handles, so \<^verbatim>\<open>sendFile\<close> ends with the exception.
\<close>

theorem syn_wait_short_datagram:
  "parsePacket [0, 0, 0, 0, 0, 0] = Inr (0, 0, 0, [])
   \<and> syn_wait_step st (Datagram [0, 0, 0, 0, 0, 0]) = Some (Inl ValueError)
   \<and> syn_wait_step st (Datagram []) = Some (Inl StructError)"
  by (simp add: syn_wait_step_def syn_wait_iter_def recvfrom_def MAX_PACKET_SIZE_def
      parsePacket_def parseSynPacket_def unpack_HHH_def unpack_H_def HEADER_SIZE_def)

text \<open>
  A datagram long enough to parse as a handshake packet, without both flags,
  is ignored as the claim says: nothing is sent or logged and the wait goes on.
\<close>

lemma syn_wait_ignores:
  assumes "parseSynPacket response = Inr (s, a, f, n)"
    and "\<not> (f AND FLAGS_SYN \<noteq> 0 \<and> f AND FLAGS_ACK \<noteq> 0)"
  shows "syn_wait_iter st (Inr response)
           = Inr (Waiting (st\<lparr>s_seq_num := s, s_ack_num := a, s_flags := f,
                               s_file_size := n\<rparr>))"
  using assms by (auto simp: syn_wait_iter_def Let_def)

end
